theory Spec2Isabelle
  imports Main
begin

section \<open>Data model of boggle.cpp\<close>

text \<open>
  \<^verbatim>\<open>struct locationT { int numRow; int numCol; };\<close>
  Coordinates are C++ \<^verbatim>\<open>int\<close>s. They are modelled as mathematical integers: the only
  arithmetic on them is the four differences in \<^verbatim>\<open>AreNeighbors\<close>, which are exact for
  every coordinate the program forms (the sentinel \<open>-1\<close> and indices below the board's
  dimensions).
\<close>

record locationT =
  numRow :: int
  numCol :: int

text \<open>
  \<^verbatim>\<open>Grid<string>\<close> of the course library: fixed dimensions and one string per cell.
  Reading a cell outside the dimensions is the library's error; so is
  \<^verbatim>\<open>std::string::substr\<close> with a start position beyond the string's size.
\<close>

datatype error = GridOutOfRange | StringOutOfRange

record Grid =
  numRows :: int
  numCols :: int
  elems :: "int \<Rightarrow> int \<Rightarrow> string"

definition inBounds :: "Grid \<Rightarrow> int \<Rightarrow> int \<Rightarrow> bool" where
  "inBounds board row col \<longleftrightarrow> 0 \<le> row \<and> row < numRows board \<and> 0 \<le> col \<and> col < numCols board"

text \<open>\<^verbatim>\<open>board(row, col)\<close>\<close>

definition getAt :: "Grid \<Rightarrow> int \<Rightarrow> int \<Rightarrow> error + string" where
  "getAt board row col =
     (if inBounds board row col then Inr (elems board row col) else Inl GridOutOfRange)"

text \<open>
  The index pairs visited by
  \<^verbatim>\<open>for (i = 0; i < board.numRows(); i++) for (j = 0; j < board.numCols(); j++)\<close>,
  in the order the loops produce them.
\<close>

definition cells :: "Grid \<Rightarrow> (int \<times> int) list" where
  "cells board = concat (map (\<lambda>i. map (\<lambda>j. (i, j)) [0..numCols board - 1]) [0..numRows board - 1])"

text \<open>A grid given by its rows, for writing boards down.\<close>

definition gridOfRows :: "int \<Rightarrow> int \<Rightarrow> string list list \<Rightarrow> Grid" where
  "gridOfRows nr nc rows = \<lparr>numRows = nr, numCols = nc, elems = (\<lambda>i j. rows ! nat i ! nat j)\<rparr>"

text \<open>
  \<^verbatim>\<open>Lexicon\<close> of the course library is used through two queries only; it is taken as a
  pair of total oracles.
\<close>

record Lexicon =
  containsWord :: "string \<Rightarrow> bool"
  containsPrefix :: "string \<Rightarrow> bool"

text \<open>
  A lexicon is coherent when its prefix query accepts every initial segment of every
  string its word query accepts, as any collection of words does.
\<close>

definition coherent :: "Lexicon \<Rightarrow> bool" where
  "coherent lx \<longleftrightarrow> (\<forall>p s. containsWord lx (p @ s) \<longrightarrow> containsPrefix lx p)"

text \<open>The lexicon of a finite word list.\<close>

definition lexiconOf :: "string list \<Rightarrow> Lexicon" where
  "lexiconOf ws = \<lparr>containsWord = (\<lambda>s. s \<in> set ws),
                   containsPrefix = (\<lambda>s. list_ex (\<lambda>w. take (length s) w = s) ws)\<rparr>"

text \<open>
  \<^verbatim>\<open>ConvertToUpperCase\<close> of the course library (strutils.h): every character goes
  through \<^verbatim>\<open>toupper\<close>, which in the C locale moves \<open>a..z\<close> (codes 97..122) down by 32.
\<close>

definition toupper :: "char \<Rightarrow> char" where
  "toupper c = (let n = (of_char c :: nat) in if 97 \<le> n \<and> n \<le> 122 then char_of (n - 32) else c)"

definition ConvertToUpperCase :: "string \<Rightarrow> string" where
  "ConvertToUpperCase s = map toupper s"

text \<open>The players and the calls into the graphics module gboggle.h, kept as a log.\<close>

datatype playerT = Human | Computer

datatype event =
    HighlightCube int int bool
  | Pause
  | RecordWordForPlayer string playerT

text \<open>
  What one round of \<^verbatim>\<open>main\<close> holds: the board, the set of words claimed so far,
  and the log of display calls.
\<close>

record game =
  g_board :: Grid
  g_wordsSeen :: "string set"
  g_display :: "event list"

section \<open>Part 3: the player's turn\<close>

fun AreNeighbors :: "int \<Rightarrow> int \<Rightarrow> int \<Rightarrow> int \<Rightarrow> bool" where
  "AreNeighbors row1 col1 row2 col2 =
     (if row2 = -1 \<and> col2 = -1 then True
      else if row1 - row2 > 1 \<or> row2 - row1 > 1 \<or> col1 - col2 > 1 \<or> col2 - col1 > 1 then False
      else if row1 = row2 \<and> col1 = col2 then False
      else True)"

declare AreNeighbors.simps [simp del]

fun NotDuplicated :: "int \<Rightarrow> int \<Rightarrow> locationT list \<Rightarrow> bool" where
  "NotDuplicated row col [] = True"
| "NotDuplicated row col (l # locations) =
     (if numRow l = row \<and> numCol l = col then False else NotDuplicated row col locations)"

lemma length_ConvertToUpperCase [simp]: "length (ConvertToUpperCase s) = length s"
  by (simp add: ConvertToUpperCase_def)

text \<open>
  \<^verbatim>\<open>Findable\<close>. The vector \<open>locations\<close> is a by-value parameter that the loop body
  extends and, when the word is not empty, shrinks again; \<open>answers\<close> is the by-reference
  result. \<open>Findable_scan\<close> is the double loop, run over the remaining index pairs and
  carrying both vectors. \<^verbatim>\<open>word.substr(0,1)\<close> is \<open>take 1 word\<close>;
  \<^verbatim>\<open>word.substr(1)\<close> is \<open>drop 1 word\<close> and throws when the word is empty.
\<close>

function Findable :: "Grid \<Rightarrow> string \<Rightarrow> int \<Rightarrow> int \<Rightarrow> locationT list \<Rightarrow> locationT list list
      \<Rightarrow> error + locationT list list"
  and Findable_scan :: "Grid \<Rightarrow> string \<Rightarrow> int \<Rightarrow> int \<Rightarrow> (int \<times> int) list \<Rightarrow> locationT list
      \<Rightarrow> locationT list list \<Rightarrow> error + locationT list list"
where
  "Findable board word0 row col locations answers =
     (let word = ConvertToUpperCase word0;
          answers1 = (if length word = 0 then answers @ [locations] else answers)
      in Findable_scan board word row col (cells board) locations answers1)"
| "Findable_scan board word row col [] locations answers = Inr answers"
| "Findable_scan board word row col ((i, j) # rest) locations answers =
     (case getAt board i j of
        Inl e \<Rightarrow> Inl e
      | Inr token \<Rightarrow>
          if token = take 1 word \<and> AreNeighbors i j row col \<and> NotDuplicated i j locations then
            (let locations1 = locations @ [\<lparr>numRow = i, numCol = j\<rparr>] in
             if length word < 1 then Inl StringOutOfRange
             else
               (case Findable board (drop 1 word) i j locations1 answers of
                  Inl e \<Rightarrow> Inl e
                | Inr answers1 \<Rightarrow>
                    Findable_scan board word row col rest
                      (if length word \<noteq> 0 then butlast locations1 else locations1) answers1))
          else Findable_scan board word row col rest locations answers)"
  by pat_completeness auto
termination
  by (relation "measures [
        (\<lambda>x. case x of Inl (b, w, r, c, l, a) \<Rightarrow> length w | Inr (b, w, r, c, cs, l, a) \<Rightarrow> length w),
        (\<lambda>x. case x of Inl (b, w, r, c, l, a) \<Rightarrow> Suc (length (cells b)) | Inr (b, w, r, c, cs, l, a) \<Rightarrow> length cs)]")
     auto

text \<open>
  \<^verbatim>\<open>WordIsValid\<close>, on the state of the round. The board and the claimed words are
  reference parameters; the function's own effect is the highlighting of the first path.
\<close>

definition WordIsValid :: "string \<Rightarrow> Lexicon \<Rightarrow> game \<Rightarrow> error + (bool \<times> game)" where
  "WordIsValid word lx g =
     (if length word < 4 then Inr (False, g)
      else if word \<in> g_wordsSeen g then Inr (False, g)
      else if \<not> containsWord lx word then Inr (False, g)
      else
        (case Findable (g_board g) word (-1) (-1) [] [] of
           Inl e \<Rightarrow> Inl e
         | Inr results \<Rightarrow>
             if length results = 0 then Inr (False, g)
             else
               (let answer = hd results in
                Inr (True, g\<lparr>g_display := g_display g
                       @ map (\<lambda>l. HighlightCube (numRow l) (numCol l) True) answer
                       @ [Pause]
                       @ map (\<lambda>l. HighlightCube (numRow l) (numCol l) False) answer\<rparr>))))"

definition putWordOnBoard :: "string \<Rightarrow> game \<Rightarrow> game" where
  "putWordOnBoard word g =
     g\<lparr>g_wordsSeen := insert word (g_wordsSeen g),
       g_display := g_display g @ [RecordWordForPlayer word Human]\<rparr>"

section \<open>Part 4: the computer's turn\<close>

lemma NotDuplicated_iff:
  "NotDuplicated row col locations \<longleftrightarrow> \<lparr>numRow = row, numCol = col\<rparr> \<notin> set locations"
  by (induction locations) auto

lemma set_cells: "set (cells board) = {(i, j). inBounds board i j}"
  by (auto simp: cells_def inBounds_def)

text \<open>The board cells that a path has not used yet; their number is what the enumeration consumes.\<close>

definition unvisited :: "Grid \<Rightarrow> locationT list \<Rightarrow> locationT set" where
  "unvisited board visited = (\<lambda>(i, j). \<lparr>numRow = i, numCol = j\<rparr>) ` set (cells board) - set visited"

lemma unvisited_less:
  assumes "inBounds board i j" and "NotDuplicated i j visited"
  shows "card (unvisited board (visited @ [\<lparr>numRow = i, numCol = j\<rparr>])) < card (unvisited board visited)"
proof -
  let ?l = "\<lparr>numRow = i, numCol = j\<rparr>"
  have fin: "finite (unvisited board visited)"
    by (simp add: unvisited_def)
  have "(i, j) \<in> set (cells board)"
    using assms(1) by (simp add: set_cells)
  then have "?l \<in> (\<lambda>(i, j). \<lparr>numRow = i, numCol = j\<rparr>) ` set (cells board)"
    by (rule rev_image_eqI) simp
  with assms(2) have mem: "?l \<in> unvisited board visited"
    by (simp add: unvisited_def NotDuplicated_iff)
  have "unvisited board (visited @ [?l]) = unvisited board visited - {?l}"
    by (auto simp: unvisited_def)
  moreover from fin mem have "card (unvisited board visited - {?l}) < card (unvisited board visited)"
    by (rule card_Diff1_less)
  ultimately show ?thesis by simp
qed

text \<open>
  \<^verbatim>\<open>FindAllWords\<close>. The claimed words are a reference parameter and
  \<^verbatim>\<open>RecordWordForPlayer\<close> writes to the display, so both are passed in and returned;
  \<open>soFar\<close> and \<open>visited\<close> are by-value parameters. \<open>FindAllWords_scan\<close> is the double loop
  over the remaining index pairs; it follows the recording \<^verbatim>\<open>if\<close> whether or not the word
  was recorded.
\<close>

function FindAllWords :: "int \<Rightarrow> int \<Rightarrow> Grid \<Rightarrow> Lexicon \<Rightarrow> string set \<Rightarrow> string \<Rightarrow> locationT list
      \<Rightarrow> event list \<Rightarrow> error + (string set \<times> event list)"
  and FindAllWords_scan :: "int \<Rightarrow> int \<Rightarrow> Grid \<Rightarrow> Lexicon \<Rightarrow> string set \<Rightarrow> string \<Rightarrow> locationT list
      \<Rightarrow> (int \<times> int) list \<Rightarrow> event list \<Rightarrow> error + (string set \<times> event list)"
where
  "FindAllWords row col board lx wordsSeen soFar0 visited0 disp =
     (let here = \<lparr>numRow = row, numCol = col\<rparr>;
          visited = visited0 @ [here]
      in case getAt board row col of
           Inl e \<Rightarrow> Inl e
         | Inr token \<Rightarrow>
             (let soFar = soFar0 @ token in
              if \<not> containsPrefix lx soFar then Inr (wordsSeen, disp)
              else if containsWord lx soFar \<and> soFar \<notin> wordsSeen \<and> length soFar > 3 then
                FindAllWords_scan row col board lx (insert soFar wordsSeen) soFar visited (cells board)
                  (disp @ [RecordWordForPlayer soFar Computer])
              else FindAllWords_scan row col board lx wordsSeen soFar visited (cells board) disp))"
| "FindAllWords_scan row col board lx wordsSeen soFar visited [] disp = Inr (wordsSeen, disp)"
| "FindAllWords_scan row col board lx wordsSeen soFar visited ((i, j) # rest) disp =
     (if AreNeighbors row col i j \<and> NotDuplicated i j visited then
        (case FindAllWords i j board lx wordsSeen soFar visited disp of
           Inl e \<Rightarrow> Inl e
         | Inr (wordsSeen1, disp1) \<Rightarrow> FindAllWords_scan row col board lx wordsSeen1 soFar visited rest disp1)
      else FindAllWords_scan row col board lx wordsSeen soFar visited rest disp)"
  by pat_completeness auto
termination
proof (relation "measures [
    (\<lambda>x. case x of
        Inl (r, c, b, lx, ws, s, v, d) \<Rightarrow> card (unvisited b (v @ [\<lparr>numRow = r, numCol = c\<rparr>]))
      | Inr (r, c, b, lx, ws, s, v, cs, d) \<Rightarrow> card (unvisited b v)),
    (\<lambda>x. case x of
        Inl (r, c, b, lx, ws, s, v, d) \<Rightarrow> (if inBounds b r c then Suc (length (cells b)) else 0)
      | Inr (r, c, b, lx, ws, s, v, cs, d) \<Rightarrow> length cs)]", goal_cases)
  case 1
  show ?case by simp
next
  case (2 row col board lx wordsSeen soFar0 visited0 disp here visited token soFar)
  then show ?case by (auto simp: getAt_def split: if_splits)
next
  case (3 row col board lx wordsSeen soFar0 visited0 disp here visited token soFar)
  then show ?case by (auto simp: getAt_def split: if_splits)
next
  case (4 row col board lx wordsSeen soFar visited i j rest disp)
  show ?case
  proof (cases "inBounds board i j")
    case True
    with 4 show ?thesis by (simp add: unvisited_less)
  next
    case False
    then have "\<lparr>numRow = i, numCol = j\<rparr> \<notin> (\<lambda>(i, j). \<lparr>numRow = i, numCol = j\<rparr>) ` set (cells board)"
      by (auto simp: set_cells)
    then have "unvisited board (visited @ [\<lparr>numRow = i, numCol = j\<rparr>]) = unvisited board visited"
      by (auto simp: unvisited_def)
    with False show ?thesis by simp
  qed
next
  case 5
  then show ?case by simp
next
  case 6
  then show ?case by simp
qed

text \<open>\<^verbatim>\<open>ComputerTurn\<close>: one enumeration from every cell, in loop order.\<close>

fun ComputerTurn_scan :: "Grid \<Rightarrow> Lexicon \<Rightarrow> string set \<Rightarrow> (int \<times> int) list \<Rightarrow> event list
      \<Rightarrow> error + (string set \<times> event list)" where
  "ComputerTurn_scan board lx wordsSeen [] disp = Inr (wordsSeen, disp)"
| "ComputerTurn_scan board lx wordsSeen ((i, j) # rest) disp =
     (case FindAllWords i j board lx wordsSeen [] [] disp of
        Inl e \<Rightarrow> Inl e
      | Inr (wordsSeen1, disp1) \<Rightarrow> ComputerTurn_scan board lx wordsSeen1 rest disp1)"

definition ComputerTurn :: "Lexicon \<Rightarrow> game \<Rightarrow> error + game" where
  "ComputerTurn lx g =
     (case ComputerTurn_scan (g_board g) lx (g_wordsSeen g) (cells (g_board g)) (g_display g) of
        Inl e \<Rightarrow> Inl e
      | Inr (wordsSeen1, disp1) \<Rightarrow> Inr (g\<lparr>g_wordsSeen := wordsSeen1, g_display := disp1\<rparr>))"

text \<open>The words the display was told to record for a player, in order.\<close>

definition recordedFor :: "playerT \<Rightarrow> event list \<Rightarrow> string list" where
  "recordedFor who disp = concat (map (\<lambda>e. case e of RecordWordForPlayer w p \<Rightarrow> (if p = who then [w] else []) | _ \<Rightarrow> []) disp)"

section \<open>Notions used to state the properties\<close>

text \<open>The board of the end-to-end scenarios, and a board with a two-letter face.\<close>

definition scenarioBoard :: Grid where
  "scenarioBoard = gridOfRows 4 4
     [[''C'', ''A'', ''T'', ''S''], [''O'', ''R'', ''E'', ''N''],
      [''X'', ''X'', ''X'', ''X''], [''X'', ''X'', ''X'', ''X'']]"

definition quBoard :: Grid where
  "quBoard = gridOfRows 2 2 [[''QU'', ''I''], [''T'', ''E'']]"

text \<open>
  A list of cells is a chain after the cell \<open>(row, col)\<close> when each cell is accepted by
  \<open>AreNeighbors\<close> with its predecessor as second pair, the way \<open>Findable\<close> calls it.
\<close>

fun chain :: "int \<Rightarrow> int \<Rightarrow> locationT list \<Rightarrow> bool" where
  "chain row col [] = True"
| "chain row col (l # ls) = (AreNeighbors (numRow l) (numCol l) row col \<and> chain (numRow l) (numCol l) ls)"

text \<open>The tokens along a list of cells, concatenated.\<close>

definition spell :: "Grid \<Rightarrow> locationT list \<Rightarrow> string" where
  "spell board p = concat (map (\<lambda>l. elems board (numRow l) (numCol l)) p)"

definition onBoard :: "Grid \<Rightarrow> locationT list \<Rightarrow> bool" where
  "onBoard board p = list_all (\<lambda>l. inBounds board (numRow l) (numCol l)) p"

text \<open>
  \<open>ext\<close> traces the string \<open>s\<close> after the cell \<open>(row, col)\<close>, given the cells \<open>locations\<close>
  already used: cells of the board, pairwise different and unused, a chain, spelling \<open>s\<close>
  one character per cell.
\<close>

definition traceFrom :: "Grid \<Rightarrow> int \<Rightarrow> int \<Rightarrow> locationT list \<Rightarrow> locationT list \<Rightarrow> string \<Rightarrow> bool" where
  "traceFrom board row col locations ext s \<longleftrightarrow>
     onBoard board ext \<and> distinct ext \<and> list_all (\<lambda>l. l \<notin> set locations) ext \<and> chain row col ext
     \<and> map (\<lambda>l. elems board (numRow l) (numCol l)) ext = map (\<lambda>c. [c]) s"

text \<open>Every cell of the board bears at least one character.\<close>

definition tokensNonEmpty :: "Grid \<Rightarrow> bool" where
  "tokensNonEmpty board = list_all (\<lambda>(i, j). elems board i j \<noteq> []) (cells board)"

text \<open>Every cell of the board bears exactly one character, and \<open>toupper\<close> leaves it alone.\<close>

definition singleUpperTokens :: "Grid \<Rightarrow> bool" where
  "singleUpperTokens board =
     list_all (\<lambda>(i, j). length (elems board i j) = 1 \<and> ConvertToUpperCase (elems board i j) = elems board i j)
       (cells board)"

text \<open>
  The enumeration with the prefix check removed: \<open>FindAllWords\<close> without the statement
  \<^verbatim>\<open>if (!lex.containsPrefix(soFar)) return;\<close>, so that it always records and recurses, and
  the computer's turn built on it.
\<close>

function FindAllWords_unpruned :: "int \<Rightarrow> int \<Rightarrow> Grid \<Rightarrow> Lexicon \<Rightarrow> string set \<Rightarrow> string
      \<Rightarrow> locationT list \<Rightarrow> event list \<Rightarrow> error + (string set \<times> event list)"
  and FindAllWords_unpruned_scan :: "int \<Rightarrow> int \<Rightarrow> Grid \<Rightarrow> Lexicon \<Rightarrow> string set \<Rightarrow> string
      \<Rightarrow> locationT list \<Rightarrow> (int \<times> int) list \<Rightarrow> event list \<Rightarrow> error + (string set \<times> event list)"
where
  "FindAllWords_unpruned row col board lx wordsSeen soFar0 visited0 disp =
     (let here = \<lparr>numRow = row, numCol = col\<rparr>;
          visited = visited0 @ [here]
      in case getAt board row col of
           Inl e \<Rightarrow> Inl e
         | Inr token \<Rightarrow>
             (let soFar = soFar0 @ token in
              if containsWord lx soFar \<and> soFar \<notin> wordsSeen \<and> length soFar > 3 then
                FindAllWords_unpruned_scan row col board lx (insert soFar wordsSeen) soFar visited
                  (cells board) (disp @ [RecordWordForPlayer soFar Computer])
              else FindAllWords_unpruned_scan row col board lx wordsSeen soFar visited (cells board) disp))"
| "FindAllWords_unpruned_scan row col board lx wordsSeen soFar visited [] disp = Inr (wordsSeen, disp)"
| "FindAllWords_unpruned_scan row col board lx wordsSeen soFar visited ((i, j) # rest) disp =
     (if AreNeighbors row col i j \<and> NotDuplicated i j visited then
        (case FindAllWords_unpruned i j board lx wordsSeen soFar visited disp of
           Inl e \<Rightarrow> Inl e
         | Inr (wordsSeen1, disp1) \<Rightarrow>
             FindAllWords_unpruned_scan row col board lx wordsSeen1 soFar visited rest disp1)
      else FindAllWords_unpruned_scan row col board lx wordsSeen soFar visited rest disp)"
  by pat_completeness auto
termination
proof (relation "measures [
    (\<lambda>x. case x of
        Inl (r, c, b, lx, ws, s, v, d) \<Rightarrow> card (unvisited b (v @ [\<lparr>numRow = r, numCol = c\<rparr>]))
      | Inr (r, c, b, lx, ws, s, v, cs, d) \<Rightarrow> card (unvisited b v)),
    (\<lambda>x. case x of
        Inl (r, c, b, lx, ws, s, v, d) \<Rightarrow> (if inBounds b r c then Suc (length (cells b)) else 0)
      | Inr (r, c, b, lx, ws, s, v, cs, d) \<Rightarrow> length cs)]", goal_cases)
  case 1
  show ?case by simp
next
  case (2 row col board lx wordsSeen soFar0 visited0 disp here visited token soFar)
  then show ?case by (auto simp: getAt_def split: if_splits)
next
  case (3 row col board lx wordsSeen soFar0 visited0 disp here visited token soFar)
  then show ?case by (auto simp: getAt_def split: if_splits)
next
  case (4 row col board lx wordsSeen soFar visited i j rest disp)
  show ?case
  proof (cases "inBounds board i j")
    case True
    with 4 show ?thesis by (simp add: unvisited_less)
  next
    case False
    then have "\<lparr>numRow = i, numCol = j\<rparr> \<notin> (\<lambda>(i, j). \<lparr>numRow = i, numCol = j\<rparr>) ` set (cells board)"
      by (auto simp: set_cells)
    then have "unvisited board (visited @ [\<lparr>numRow = i, numCol = j\<rparr>]) = unvisited board visited"
      by (auto simp: unvisited_def)
    with False show ?thesis by simp
  qed
next
  case 5
  then show ?case by simp
next
  case 6
  then show ?case by simp
qed

fun ComputerTurn_unpruned_scan :: "Grid \<Rightarrow> Lexicon \<Rightarrow> string set \<Rightarrow> (int \<times> int) list \<Rightarrow> event list
      \<Rightarrow> error + (string set \<times> event list)" where
  "ComputerTurn_unpruned_scan board lx wordsSeen [] disp = Inr (wordsSeen, disp)"
| "ComputerTurn_unpruned_scan board lx wordsSeen ((i, j) # rest) disp =
     (case FindAllWords_unpruned i j board lx wordsSeen [] [] disp of
        Inl e \<Rightarrow> Inl e
      | Inr (wordsSeen1, disp1) \<Rightarrow> ComputerTurn_unpruned_scan board lx wordsSeen1 rest disp1)"

definition ComputerTurn_unpruned :: "Lexicon \<Rightarrow> game \<Rightarrow> error + game" where
  "ComputerTurn_unpruned lx g =
     (case ComputerTurn_unpruned_scan (g_board g) lx (g_wordsSeen g) (cells (g_board g)) (g_display g) of
        Inl e \<Rightarrow> Inl e
      | Inr (wordsSeen1, disp1) \<Rightarrow> Inr (g\<lparr>g_wordsSeen := wordsSeen1, g_display := disp1\<rparr>))"

text \<open>
  The lexicon \<open>lx\<close> with a prefix query that answers true to everything; under it the
  prefix check of \<open>FindAllWords\<close> never fires.
\<close>

definition withoutPruning :: "Lexicon \<Rightarrow> Lexicon" where
  "withoutPruning lx = lx\<lparr>containsPrefix := (\<lambda>s. True)\<rparr>"

text \<open>
  \<open>answers'\<close> is \<open>answers\<close> followed by paths that each extend \<open>locations\<close> by a trace of \<open>s\<close>.
\<close>

definition extends :: "Grid \<Rightarrow> int \<Rightarrow> int \<Rightarrow> locationT list \<Rightarrow> string
    \<Rightarrow> locationT list list \<Rightarrow> locationT list list \<Rightarrow> bool" where
  "extends board row col locations s answers answers' \<longleftrightarrow>
     (\<exists>new. answers' = answers @ new
        \<and> (\<forall>p \<in> set new. \<exists>ext. p = locations @ ext \<and> traceFrom board row col locations ext s))"

text \<open>The character \<open>c\<close> is on no cell of the board.\<close>

definition absentFromBoard :: "Grid \<Rightarrow> char \<Rightarrow> bool" where
  "absentFromBoard board c = list_all (\<lambda>(i, j). elems board i j \<noteq> [c]) (cells board)"

text \<open>
  The strings the enumeration started at \<open>(row, col)\<close> reaches as \<open>soFar\<close> with the prefix
  check passed: at the cell itself, or at a cell reached through an unused neighbour.
\<close>

inductive explores :: "Grid \<Rightarrow> Lexicon \<Rightarrow> int \<Rightarrow> int \<Rightarrow> string \<Rightarrow> locationT list \<Rightarrow> string \<Rightarrow> bool"
  for board :: Grid and lx :: Lexicon where
  here: "inBounds board row col \<Longrightarrow> containsPrefix lx (soFar0 @ elems board row col)
      \<Longrightarrow> explores board lx row col soFar0 visited0 (soFar0 @ elems board row col)"
| step: "inBounds board row col \<Longrightarrow> containsPrefix lx (soFar0 @ elems board row col)
      \<Longrightarrow> (i, j) \<in> set (cells board) \<Longrightarrow> AreNeighbors row col i j
      \<Longrightarrow> NotDuplicated i j (visited0 @ [\<lparr>numRow = row, numCol = col\<rparr>])
      \<Longrightarrow> explores board lx i j (soFar0 @ elems board row col) (visited0 @ [\<lparr>numRow = row, numCol = col\<rparr>]) w
      \<Longrightarrow> explores board lx row col soFar0 visited0 w"

text \<open>The words the enumeration started at \<open>(row, col)\<close> would record if none were claimed.\<close>

definition found :: "Grid \<Rightarrow> Lexicon \<Rightarrow> int \<Rightarrow> int \<Rightarrow> string \<Rightarrow> locationT list \<Rightarrow> string set" where
  "found board lx row col soFar0 visited0 =
     {w. explores board lx row col soFar0 visited0 w \<and> containsWord lx w \<and> length w > 3}"

definition foundNext :: "Grid \<Rightarrow> Lexicon \<Rightarrow> int \<Rightarrow> int \<Rightarrow> string \<Rightarrow> locationT list \<Rightarrow> (int \<times> int) list
    \<Rightarrow> string set" where
  "foundNext board lx row col soFar visited cs =
     (\<Union>(i, j) \<in> {(i, j). (i, j) \<in> set cs \<and> AreNeighbors row col i j \<and> NotDuplicated i j visited}.
        found board lx i j soFar visited)"

text \<open>
  The claimed words grow by the set \<open>F\<close>, and the display by one record for the computer
  for each word of \<open>F\<close> not claimed before.
\<close>

definition grows :: "string set \<Rightarrow> string set \<Rightarrow> event list \<Rightarrow> string set \<times> event list \<Rightarrow> bool" where
  "grows F wordsSeen disp r \<longleftrightarrow>
     fst r = wordsSeen \<union> F
     \<and> (\<exists>new. snd r = disp @ map (\<lambda>w. RecordWordForPlayer w Computer) new \<and> set new = F - wordsSeen)"

text \<open>The words \<open>ComputerTurn\<close> would record on a board if none were claimed.\<close>

definition enumerated :: "Grid \<Rightarrow> Lexicon \<Rightarrow> (int \<times> int) list \<Rightarrow> string set" where
  "enumerated board lx cs = (\<Union>(i, j) \<in> set cs. found board lx i j [] [])"

text \<open>A board of two rows and two columns.\<close>

definition smallBoard :: Grid where
  "smallBoard = gridOfRows 2 2 [[''C'', ''A''], [''S'', ''T'']]"

section \<open>Adjacency\<close>

lemma AreNeighbors_sentinel: "AreNeighbors row1 col1 (-1) (-1)"
  by (simp add: AreNeighbors.simps)

lemma AreNeighbors_inBounds:
  assumes "0 \<le> row2" and "0 \<le> col2"
  shows "AreNeighbors row1 col1 row2 col2
           \<longleftrightarrow> (row1, col1) \<noteq> (row2, col2) \<and> \<bar>row1 - row2\<bar> \<le> 1 \<and> \<bar>col1 - col2\<bar> \<le> 1"
  using assms by (auto simp: AreNeighbors.simps)

lemma AreNeighbors_sym:
  assumes "inBounds board row1 col1" and "inBounds board row2 col2"
  shows "AreNeighbors row1 col1 row2 col2 = AreNeighbors row2 col2 row1 col1"
proof -
  from assms have "0 \<le> row1" "0 \<le> col1" "0 \<le> row2" "0 \<le> col2"
    by (simp_all add: inBounds_def)
  then show ?thesis
    by (simp add: AreNeighbors_inBounds) (auto simp: abs_if)
qed

text \<open>
  C6. For two cells inside the board, \<open>AreNeighbors\<close> holds exactly when they are different
  and at most one row and at most one column apart; so it is symmetric there, and no cell
  of the board is its own neighbour.
\<close>

theorem AreNeighbors_characterisation:
  assumes "inBounds board row1 col1" and "inBounds board row2 col2"
  shows "(AreNeighbors row1 col1 row2 col2
            \<longleftrightarrow> (row1, col1) \<noteq> (row2, col2) \<and> \<bar>row1 - row2\<bar> \<le> 1 \<and> \<bar>col1 - col2\<bar> \<le> 1)
         \<and> AreNeighbors row1 col1 row2 col2 = AreNeighbors row2 col2 row1 col1
         \<and> \<not> AreNeighbors row1 col1 row1 col1"
proof -
  from assms have nonneg: "0 \<le> row1" "0 \<le> col1" "0 \<le> row2" "0 \<le> col2"
    by (simp_all add: inBounds_def)
  from nonneg(3,4) have "AreNeighbors row1 col1 row2 col2
      \<longleftrightarrow> (row1, col1) \<noteq> (row2, col2) \<and> \<bar>row1 - row2\<bar> \<le> 1 \<and> \<bar>col1 - col2\<bar> \<le> 1"
    by (rule AreNeighbors_inBounds)
  moreover from assms have "AreNeighbors row1 col1 row2 col2 = AreNeighbors row2 col2 row1 col1"
    by (rule AreNeighbors_sym)
  moreover from nonneg have "\<not> AreNeighbors row1 col1 row1 col1"
    by (simp add: AreNeighbors_inBounds)
  ultimately show ?thesis by blast
qed

theorem AreNeighbors_characterisation_witness:
  "inBounds scenarioBoard 0 1 \<and> inBounds scenarioBoard 1 2
   \<and> AreNeighbors 0 1 1 2 \<and> AreNeighbors 1 2 0 1 \<and> \<not> AreNeighbors 0 1 0 1"
proof -
  have a: "inBounds scenarioBoard 0 1" and b: "inBounds scenarioBoard 1 2"
    by (simp_all add: inBounds_def scenarioBoard_def gridOfRows_def)
  from AreNeighbors_characterisation [OF a b] a b show ?thesis by auto
qed

text \<open>
  C7, as the specification words it: the sentinel \<open>(-1, -1)\<close> is given as the first pair.
  The cell \<open>(1, 1)\<close> of a 4 by 4 board is then rejected.
\<close>

theorem sentinel_first_counterexample:
  "inBounds scenarioBoard 1 1 \<and> \<not> AreNeighbors (-1) (-1) 1 1"
  by (simp add: inBounds_def scenarioBoard_def gridOfRows_def AreNeighbors.simps)

text \<open>
  C7, amended: the sentinel is recognised as the second pair. With the sentinel second,
  every cell of the board is accepted; with the sentinel first, only the cell \<open>(0, 0)\<close> is.
\<close>

theorem sentinel_second_universal:
  assumes "inBounds board row col"
  shows "AreNeighbors row col (-1) (-1) \<and> (AreNeighbors (-1) (-1) row col \<longleftrightarrow> row = 0 \<and> col = 0)"
proof -
  from assms have "0 \<le> row" "0 \<le> col"
    by (simp_all add: inBounds_def)
  then have "AreNeighbors (-1) (-1) row col \<longleftrightarrow> row = 0 \<and> col = 0"
    by (auto simp: AreNeighbors.simps)
  then show ?thesis by (simp add: AreNeighbors_sentinel)
qed

theorem sentinel_second_universal_witness:
  "inBounds scenarioBoard 3 2 \<and> AreNeighbors 3 2 (-1) (-1) \<and> \<not> AreNeighbors (-1) (-1) 3 2"
proof -
  have a: "inBounds scenarioBoard 3 2"
    by (simp add: inBounds_def scenarioBoard_def gridOfRows_def)
  from sentinel_second_universal [OF a] a show ?thesis by simp
qed

section \<open>Path tracing\<close>

lemma toupper_idem: "toupper (toupper c) = toupper c"
  by (auto simp: toupper_def Let_def)

lemma ConvertToUpperCase_idem: "ConvertToUpperCase (ConvertToUpperCase s) = ConvertToUpperCase s"
  by (simp add: ConvertToUpperCase_def toupper_idem)

lemma ConvertToUpperCase_Nil [simp]: "ConvertToUpperCase [] = []"
  by (simp add: ConvertToUpperCase_def)

lemma ConvertToUpperCase_drop: "ConvertToUpperCase (drop n s) = drop n (ConvertToUpperCase s)"
  by (simp add: ConvertToUpperCase_def drop_map)

lemma ConvertToUpperCase_first:
  "take 1 (ConvertToUpperCase w) @ ConvertToUpperCase (drop 1 (ConvertToUpperCase w)) = ConvertToUpperCase w"
  by (simp add: ConvertToUpperCase_drop ConvertToUpperCase_idem)

lemma getAt_Inr: "getAt board i j = Inr token \<longleftrightarrow> inBounds board i j \<and> token = elems board i j"
  by (auto simp: getAt_def)

lemma traceFrom_Nil: "traceFrom board row col locations [] s \<longleftrightarrow> s = []"
  by (auto simp: traceFrom_def onBoard_def)

lemma traceFrom_Cons:
  "traceFrom board row col locations (l # ext) s \<longleftrightarrow>
     (\<exists>c s'. s = c # s' \<and> elems board (numRow l) (numCol l) = [c]
        \<and> inBounds board (numRow l) (numCol l) \<and> AreNeighbors (numRow l) (numCol l) row col
        \<and> l \<notin> set locations
        \<and> traceFrom board (numRow l) (numCol l) (locations @ [l]) ext s')"
  by (cases s) (auto simp: traceFrom_def onBoard_def list_all_iff)

lemma extends_refl: "extends board row col locations s answers answers"
  by (simp add: extends_def)

lemma extends_trans:
  assumes "extends board row col locations s a b" and "extends board row col locations s b c"
  shows "extends board row col locations s a c"
proof -
  from assms obtain n1 n2 where "b = a @ n1" "c = b @ n2"
    and "\<forall>p \<in> set n1. \<exists>ext. p = locations @ ext \<and> traceFrom board row col locations ext s"
    and "\<forall>p \<in> set n2. \<exists>ext. p = locations @ ext \<and> traceFrom board row col locations ext s"
    unfolding extends_def by blast
  then have "c = a @ (n1 @ n2)"
    and "\<forall>p \<in> set (n1 @ n2). \<exists>ext. p = locations @ ext \<and> traceFrom board row col locations ext s"
    by auto
  then show ?thesis unfolding extends_def by blast
qed

lemma extends_set: "extends board row col locations s a b \<Longrightarrow> set a \<subseteq> set b"
  by (auto simp: extends_def)

lemma extends_step:
  assumes ext: "extends board i j (locations @ [\<lparr>numRow = i, numCol = j\<rparr>]) s answers answers'"
    and cell: "inBounds board i j" "elems board i j = [c]"
    and ok: "AreNeighbors i j row col" "NotDuplicated i j locations"
  shows "extends board row col locations (c # s) answers answers'"
proof -
  let ?l = "\<lparr>numRow = i, numCol = j\<rparr>"
  from ext obtain new where new: "answers' = answers @ new"
    and tr: "\<forall>p \<in> set new. \<exists>ext. p = (locations @ [?l]) @ ext \<and> traceFrom board i j (locations @ [?l]) ext s"
    unfolding extends_def by blast
  have "\<exists>ext. p = locations @ ext \<and> traceFrom board row col locations ext (c # s)"
    if "p \<in> set new" for p
  proof -
    from tr that obtain ext where p: "p = (locations @ [?l]) @ ext"
      and t: "traceFrom board i j (locations @ [?l]) ext s" by blast
    from t cell ok have "traceFrom board row col locations (?l # ext) (c # s)"
      by (simp add: traceFrom_Cons NotDuplicated_iff)
    with p show ?thesis by auto
  qed
  with new show ?thesis unfolding extends_def by blast
qed

lemma Findable_extends:
  "Findable board w row col locations answers = Inr answers'
     \<Longrightarrow> extends board row col locations (ConvertToUpperCase w) answers answers'"
  "Findable_scan board w row col cs locations answers = Inr answers'
     \<Longrightarrow> extends board row col locations (take 1 w @ ConvertToUpperCase (drop 1 w)) answers answers'"
proof (induction board w row col locations answers and board w row col cs locations answers
    arbitrary: answers' and answers' rule: Findable_Findable_scan.induct)
  case (1 board word0 row col locations answers)
  let ?word = "ConvertToUpperCase word0"
  let ?answers1 = "if length ?word = 0 then answers @ [locations] else answers"
  from "1.prems" have scan: "Findable_scan board ?word row col (cells board) locations ?answers1 = Inr answers'"
    by (simp only: Findable.simps Let_def)
  from "1.IH" [OF refl refl scan]
  have rest: "extends board row col locations ?word ?answers1 answers'"
    by (simp only: ConvertToUpperCase_first)
  have "extends board row col locations ?word answers ?answers1"
    unfolding extends_def by (auto simp: traceFrom_Nil)
  then show ?case using rest by (rule extends_trans)
next
  case (2 board word row col locations answers)
  then show ?case by (simp add: extends_refl)
next
  case (3 board word row col i j rest locations answers)
  let ?s = "take 1 word @ ConvertToUpperCase (drop 1 word)"
  let ?l = "\<lparr>numRow = i, numCol = j\<rparr>"
  from "3.prems" obtain token where get: "getAt board i j = Inr token"
    by (cases "getAt board i j") auto
  then have inb: "inBounds board i j" and token: "token = elems board i j"
    by (simp_all add: getAt_Inr)
  show ?case
  proof (cases "token = take 1 word \<and> AreNeighbors i j row col \<and> NotDuplicated i j locations")
    case False
    with "3.prems" get have "Findable_scan board word row col rest locations answers = Inr answers'"
      by auto
    from "3.IH"(3) [OF get False this] show ?thesis .
  next
    case True
    with "3.prems" get have nonempty: "\<not> length word < 1"
      by (auto simp: Let_def split: if_splits)
    from "3.prems" get True nonempty obtain answers1
      where rec: "Findable board (drop 1 word) i j (locations @ [?l]) answers = Inr answers1"
        and scan: "Findable_scan board word row col rest locations answers1 = Inr answers'"
      by (auto simp: Let_def split: sum.splits if_splits)
    from nonempty True token have one: "elems board i j = [hd word]"
      by (cases word) auto
    from "3.IH"(1) [OF get True refl nonempty rec]
    have "extends board i j (locations @ [?l]) (ConvertToUpperCase (drop 1 word)) answers answers1" .
    moreover from True have "AreNeighbors i j row col" and "NotDuplicated i j locations"
      by blast+
    ultimately have "extends board row col locations (hd word # ConvertToUpperCase (drop 1 word)) answers answers1"
      using inb one by (intro extends_step)
    moreover from nonempty have "?s = hd word # ConvertToUpperCase (drop 1 word)"
      by (cases word) auto
    ultimately have first: "extends board row col locations ?s answers answers1" by simp
    from nonempty have restored: "(if length word \<noteq> 0 then butlast (locations @ [?l]) else locations @ [?l]) = locations"
      by simp
    with scan have "Findable_scan board word row col rest
        (if length word \<noteq> 0 then butlast (locations @ [?l]) else locations @ [?l]) answers1 = Inr answers'"
      by simp
    from "3.IH"(2) [OF get True refl nonempty rec this]
    have "extends board row col locations ?s answers1 answers'" by (simp only: restored)
    with first show ?thesis by (rule extends_trans)
  qed
qed

lemma Findable_scan_Cons:
  "Findable_scan board word row col ((i, j) # rest) locations answers =
     (if \<not> inBounds board i j then Inl GridOutOfRange
      else if elems board i j = take 1 word \<and> AreNeighbors i j row col \<and> NotDuplicated i j locations then
        (if word = [] then Inl StringOutOfRange
         else case Findable board (drop 1 word) i j (locations @ [\<lparr>numRow = i, numCol = j\<rparr>]) answers of
                Inl e \<Rightarrow> Inl e
              | Inr answers1 \<Rightarrow> Findable_scan board word row col rest locations answers1)
      else Findable_scan board word row col rest locations answers)"
  by (simp add: getAt_def Let_def del: Findable.simps cong: sum.case_cong)

lemma Findable_returns:
  "tokensNonEmpty board \<Longrightarrow> \<exists>answers'. Findable board w row col locations answers = Inr answers'"
  "tokensNonEmpty board \<Longrightarrow> set cs \<subseteq> set (cells board)
     \<Longrightarrow> \<exists>answers'. Findable_scan board w row col cs locations answers = Inr answers'"
proof (induction board w row col locations answers and board w row col cs locations answers
    rule: Findable_Findable_scan.induct)
  case (1 board word0 row col locations answers)
  from "1.IH" [OF refl refl "1.prems"] show ?case
    by (simp only: Findable.simps Let_def)
next
  case (2 board word row col locations answers)
  show ?case by simp
next
  case (3 board word row col i j rest locations answers)
  let ?l = "\<lparr>numRow = i, numCol = j\<rparr>"
  from "3.prems" have inb: "inBounds board i j" and sub: "set rest \<subseteq> set (cells board)"
    by (simp_all add: set_cells)
  then have get: "getAt board i j = Inr (elems board i j)"
    by (simp add: getAt_def)
  from "3.prems" have tok: "elems board i j \<noteq> []"
    by (auto simp: tokensNonEmpty_def list_all_iff)
  show ?case
  proof (cases "elems board i j = take 1 word \<and> AreNeighbors i j row col \<and> NotDuplicated i j locations")
    case False
    from "3.IH"(3) [OF get False "3.prems"(1) sub] inb False show ?thesis
      by (simp only: Findable_scan_Cons) simp
  next
    case True
    with tok have nonempty: "\<not> length word < 1" by auto
    from "3.IH"(1) [OF get True refl nonempty "3.prems"(1)]
    obtain answers1 where rec: "Findable board (drop 1 word) i j (locations @ [?l]) answers = Inr answers1"
      by blast
    from "3.IH"(2) [OF get True refl nonempty rec "3.prems"(1) sub] nonempty
    obtain answers' where "Findable_scan board word row col rest locations answers1 = Inr answers'"
      by auto
    with inb True nonempty rec show ?thesis
      by (simp only: Findable_scan_Cons) simp
  qed
qed

lemma absentFromBoard_iff:
  "absentFromBoard board c \<longleftrightarrow> (\<forall>i j. inBounds board i j \<longrightarrow> elems board i j \<noteq> [c])"
  by (auto simp: absentFromBoard_def list_all_iff set_cells)

lemma Findable_absent:
  "\<exists>c \<in> set (ConvertToUpperCase w). absentFromBoard board c
     \<Longrightarrow> Findable board w row col locations answers = Inr answers"
  "\<exists>c \<in> set (take 1 w @ ConvertToUpperCase (drop 1 w)). absentFromBoard board c
     \<Longrightarrow> set cs \<subseteq> set (cells board)
     \<Longrightarrow> Findable_scan board w row col cs locations answers = Inr answers"
proof (induction board w row col locations answers and board w row col cs locations answers
    rule: Findable_Findable_scan.induct)
  case (1 board word0 row col locations answers)
  let ?word = "ConvertToUpperCase word0"
  from "1.prems" have nonempty: "length ?word \<noteq> 0" by auto
  from "1.prems" have "\<exists>c \<in> set (take 1 ?word @ ConvertToUpperCase (drop 1 ?word)). absentFromBoard board c"
    by (simp only: ConvertToUpperCase_first)
  from "1.IH" [OF refl refl this subset_refl] nonempty show ?case
    by (simp only: Findable.simps Let_def if_False)
next
  case (2 board word row col locations answers)
  show ?case by simp
next
  case (3 board word row col i j rest locations answers)
  let ?l = "\<lparr>numRow = i, numCol = j\<rparr>"
  from "3.prems" have inb: "inBounds board i j" and sub: "set rest \<subseteq> set (cells board)"
    by (simp_all add: set_cells)
  then have get: "getAt board i j = Inr (elems board i j)"
    by (simp add: getAt_def)
  from "3.prems"(1) have nonempty: "\<not> length word < 1" by auto
  show ?case
  proof (cases "elems board i j = take 1 word \<and> AreNeighbors i j row col \<and> NotDuplicated i j locations")
    case False
    from "3.IH"(3) [OF get False "3.prems"(1) sub] inb False show ?thesis
      by (simp only: Findable_scan_Cons) simp
  next
    case True
    with nonempty have "elems board i j = [hd word]"
      by (cases word) auto
    with inb have "\<not> absentFromBoard board (hd word)"
      by (auto simp: absentFromBoard_iff)
    moreover from nonempty have "take 1 word = [hd word]"
      by (cases word) auto
    ultimately have deeper: "\<exists>c \<in> set (ConvertToUpperCase (drop 1 word)). absentFromBoard board c"
      using "3.prems"(1) by auto
    from "3.IH"(1) [OF get True refl nonempty deeper]
    have rec: "Findable board (drop 1 word) i j (locations @ [?l]) answers = Inr answers" .
    from "3.IH"(2) [OF get True refl nonempty rec "3.prems"(1) sub] nonempty
    have "Findable_scan board word row col rest locations answers = Inr answers"
      by simp
    with inb True nonempty rec show ?thesis
      by (simp only: Findable_scan_Cons) simp
  qed
qed

lemma locationT_eq: "\<lparr>numRow = numRow l, numCol = numCol l\<rparr> = (l :: locationT)"
  by simp

lemma Findable_complete:
  "traceFrom board row col locations ext (ConvertToUpperCase w)
     \<Longrightarrow> Findable board w row col locations answers = Inr answers'
     \<Longrightarrow> locations @ ext \<in> set answers'"
  "traceFrom board row col locations (l # ext) (take 1 w @ ConvertToUpperCase (drop 1 w))
     \<Longrightarrow> (numRow l, numCol l) \<in> set cs
     \<Longrightarrow> Findable_scan board w row col cs locations answers = Inr answers'
     \<Longrightarrow> locations @ l # ext \<in> set answers'"
proof (induction board w row col locations answers and board w row col cs locations answers
    arbitrary: ext answers' and l ext answers' rule: Findable_Findable_scan.induct)
  case (1 board word0 row col locations answers)
  let ?word = "ConvertToUpperCase word0"
  let ?answers1 = "if length ?word = 0 then answers @ [locations] else answers"
  from "1.prems"(2) have scan: "Findable_scan board ?word row col (cells board) locations ?answers1 = Inr answers'"
    by (simp only: Findable.simps Let_def)
  show ?case
  proof (cases ext)
    case Nil
    with "1.prems"(1) have "?word = []" by (simp add: traceFrom_Nil)
    then have "locations \<in> set ?answers1" by simp
    moreover from Findable_extends(2) [OF scan] have "set ?answers1 \<subseteq> set answers'"
      by (rule extends_set)
    ultimately show ?thesis using Nil by auto
  next
    case (Cons l ext')
    from "1.prems"(1) have tr: "traceFrom board row col locations (l # ext')
        (take 1 ?word @ ConvertToUpperCase (drop 1 ?word))"
      unfolding Cons by (simp only: ConvertToUpperCase_first)
    from "1.prems"(1) have "inBounds board (numRow l) (numCol l)"
      unfolding Cons by (auto simp: traceFrom_Cons)
    then have "(numRow l, numCol l) \<in> set (cells board)"
      by (simp add: set_cells)
    from "1.IH" [OF refl refl tr this scan] show ?thesis
      unfolding Cons .
  qed
next
  case (2 board word row col locations answers)
  then show ?case by simp
next
  case (3 board word row col i j rest locations answers)
  let ?l = "\<lparr>numRow = i, numCol = j\<rparr>"
  let ?s = "take 1 word @ ConvertToUpperCase (drop 1 word)"
  from "3.prems"(3) obtain token where get: "getAt board i j = Inr token"
    by (cases "getAt board i j") auto
  then have inb: "inBounds board i j" and token: "token = elems board i j"
    by (simp_all add: getAt_Inr)
  from "3.prems"(1) obtain c s' where s: "?s = c # s'"
    and cell: "elems board (numRow l) (numCol l) = [c]"
    and nb: "AreNeighbors (numRow l) (numCol l) row col"
    and unused: "l \<notin> set locations"
    and deeper: "traceFrom board (numRow l) (numCol l) (locations @ [l]) ext s'"
    by (auto simp: traceFrom_Cons)
  from s have nonempty: "\<not> length word < 1" by (cases word) auto
  with s have first: "take 1 word = [c]" and s': "s' = ConvertToUpperCase (drop 1 word)"
    by (cases word; simp)+
  show ?case
  proof (cases "token = take 1 word \<and> AreNeighbors i j row col \<and> NotDuplicated i j locations")
    case False
    with "3.prems"(3) get have scan: "Findable_scan board word row col rest locations answers = Inr answers'"
      by auto
    from False token cell first nb unused have "(numRow l, numCol l) \<noteq> (i, j)"
      by (auto simp: NotDuplicated_iff locationT_eq)
    with "3.prems"(2) have "(numRow l, numCol l) \<in> set rest" by auto
    from "3.IH"(3) [OF get False "3.prems"(1) this scan] show ?thesis .
  next
    case True
    from "3.prems"(3) get True nonempty obtain answers1
      where rec: "Findable board (drop 1 word) i j (locations @ [?l]) answers = Inr answers1"
        and scan: "Findable_scan board word row col rest locations answers1 = Inr answers'"
      by (auto simp: Let_def split: sum.splits if_splits)
    from nonempty have restored: "(if length word \<noteq> 0 then butlast (locations @ [?l]) else locations @ [?l]) = locations"
      by simp
    with scan have scan': "Findable_scan board word row col rest
        (if length word \<noteq> 0 then butlast (locations @ [?l]) else locations @ [?l]) answers1 = Inr answers'"
      by simp
    show ?thesis
    proof (cases "(numRow l, numCol l) = (i, j)")
      case True
      then have l: "l = ?l" by (cases l) simp
      from deeper have "traceFrom board i j (locations @ [?l]) ext (ConvertToUpperCase (drop 1 word))"
        unfolding s' l by simp
      from "3.IH"(1) [OF get \<open>token = take 1 word \<and> AreNeighbors i j row col \<and> NotDuplicated i j locations\<close> refl nonempty this rec]
      have "(locations @ [?l]) @ ext \<in> set answers1" .
      moreover from Findable_extends(2) [OF scan] have "set answers1 \<subseteq> set answers'"
        by (rule extends_set)
      ultimately show ?thesis using l by auto
    next
      case False
      with "3.prems"(2) have "(numRow l, numCol l) \<in> set rest" by auto
      from "3.IH"(2) [OF get True refl nonempty rec _ this scan'] "3.prems"(1) restored
      show ?thesis by simp
    qed
  qed
qed

lemma concat_singletons: "concat (map (\<lambda>c. [c]) s) = s"
  by (induction s) auto

lemma traceFrom_spell: "traceFrom board row col locations ext s \<Longrightarrow> spell board ext = s"
  by (simp add: traceFrom_def spell_def concat_singletons)

lemma extends_new:
  assumes "extends board row col locations s answers answers'"
  shows "take (length answers) answers' = answers"
    and "p \<in> set (drop (length answers) answers')
      \<Longrightarrow> take (length locations) p = locations \<and> traceFrom board row col locations (drop (length locations) p) s"
proof -
  from assms obtain new where new: "answers' = answers @ new"
    and tr: "\<forall>p \<in> set new. \<exists>ext. p = locations @ ext \<and> traceFrom board row col locations ext s"
    unfolding extends_def by blast
  from new show "take (length answers) answers' = answers" by simp
  assume "p \<in> set (drop (length answers) answers')"
  with new have "p \<in> set new" by simp
  with tr obtain ext where "p = locations @ ext" and "traceFrom board row col locations ext s"
    by blast
  then show "take (length locations) p = locations \<and> traceFrom board row col locations (drop (length locations) p) s"
    by simp
qed

text \<open>
  C4. The paths a call of \<open>Findable\<close> adds to \<open>answers\<close> each consist of the cells already
  used followed by new cells that lie on the board, are pairwise different and different
  from the used ones, form a chain after the predecessor \<open>(row, col)\<close> (for the sentinel
  the first cell is accepted as it is), and spell the upper-cased word.
\<close>

theorem Findable_paths_valid:
  assumes "Findable board word row col locations answers = Inr answers'"
  shows "take (length answers) answers' = answers
    \<and> (\<forall>p \<in> set (drop (length answers) answers').
          take (length locations) p = locations
        \<and> (distinct locations \<longrightarrow> distinct p)
        \<and> onBoard board (drop (length locations) p)
        \<and> distinct (drop (length locations) p)
        \<and> chain row col (drop (length locations) p)
        \<and> spell board (drop (length locations) p) = ConvertToUpperCase word)"
proof -
  from assms have ext: "extends board row col locations (ConvertToUpperCase word) answers answers'"
    by (rule Findable_extends(1))
  have "take (length locations) p = locations
        \<and> (distinct locations \<longrightarrow> distinct p)
        \<and> onBoard board (drop (length locations) p)
        \<and> distinct (drop (length locations) p)
        \<and> chain row col (drop (length locations) p)
        \<and> spell board (drop (length locations) p) = ConvertToUpperCase word"
    if "p \<in> set (drop (length answers) answers')" for p
  proof -
    let ?ext = "drop (length locations) p"
    from extends_new(2) [OF ext that]
    have p: "take (length locations) p = locations"
      and tr: "traceFrom board row col locations ?ext (ConvertToUpperCase word)"
      by simp_all
    from p have "p = locations @ ?ext"
      by (metis append_take_drop_id)
    moreover from tr have "distinct ?ext" and "set ?ext \<inter> set locations = {}"
      by (auto simp: traceFrom_def list_all_iff)
    ultimately have "distinct locations \<longrightarrow> distinct p"
      by (metis distinct_append inf_commute)
    with p tr traceFrom_spell [OF tr] show ?thesis
      by (simp add: traceFrom_def)
  qed
  with extends_new(1) [OF ext] show ?thesis by blast
qed

theorem Findable_paths_valid_witness:
  "Findable scenarioBoard ''cats'' (-1) (-1) [] []
     = Inr [[\<lparr>numRow = 0, numCol = 0\<rparr>, \<lparr>numRow = 0, numCol = 1\<rparr>, \<lparr>numRow = 0, numCol = 2\<rparr>, \<lparr>numRow = 0, numCol = 3\<rparr>]]
   \<and> chain (-1) (-1) [\<lparr>numRow = 0, numCol = 0\<rparr>, \<lparr>numRow = 0, numCol = 1\<rparr>, \<lparr>numRow = 0, numCol = 2\<rparr>, \<lparr>numRow = 0, numCol = 3\<rparr>]
   \<and> spell scenarioBoard [\<lparr>numRow = 0, numCol = 0\<rparr>, \<lparr>numRow = 0, numCol = 1\<rparr>, \<lparr>numRow = 0, numCol = 2\<rparr>, \<lparr>numRow = 0, numCol = 3\<rparr>]
       = ConvertToUpperCase ''cats''"
proof -
  have run: "Findable scenarioBoard ''cats'' (-1) (-1) [] []
     = Inr [[\<lparr>numRow = 0, numCol = 0\<rparr>, \<lparr>numRow = 0, numCol = 1\<rparr>, \<lparr>numRow = 0, numCol = 2\<rparr>, \<lparr>numRow = 0, numCol = 3\<rparr>]]"
    by code_simp
  from Findable_paths_valid [OF run] run show ?thesis by simp
qed

text \<open>
  C5, as the specification words it: on the board with the face \<open>QU\<close>, the cells
  \<open>(0,0), (0,1), (1,0)\<close> are pairwise different, chained, and their tokens spell \<open>QUIT\<close>,
  the first of them bearing the two characters the word begins with; the search finds no path.
\<close>

theorem multi_character_token_counterexample:
  "elems quBoard 0 0 = take 2 ''QUIT''
   \<and> spell quBoard [\<lparr>numRow = 0, numCol = 0\<rparr>, \<lparr>numRow = 0, numCol = 1\<rparr>, \<lparr>numRow = 1, numCol = 0\<rparr>] = ''QUIT''
   \<and> chain (-1) (-1) [\<lparr>numRow = 0, numCol = 0\<rparr>, \<lparr>numRow = 0, numCol = 1\<rparr>, \<lparr>numRow = 1, numCol = 0\<rparr>]
   \<and> Findable quBoard ''QUIT'' (-1) (-1) [] [] = Inr []"
  by code_simp

text \<open>
  C5, amended: a cell matches when its token equals the first single character of the
  remaining upper-cased word, and the search goes on with the word less that one
  character. So along every path added, the k-th new cell bears exactly the k-th
  character of the word: the path has as many new cells as the word has characters, and
  no cell on it bears more than one character.
\<close>

theorem Findable_one_character_per_cell:
  assumes "Findable board word row col locations answers = Inr answers'"
  shows "\<forall>p \<in> set (drop (length answers) answers').
           map (\<lambda>l. elems board (numRow l) (numCol l)) (drop (length locations) p)
             = map (\<lambda>c. [c]) (ConvertToUpperCase word)
         \<and> length p = length locations + length word
         \<and> (\<forall>l \<in> set (drop (length locations) p). length (elems board (numRow l) (numCol l)) = 1)"
proof
  fix p
  assume "p \<in> set (drop (length answers) answers')"
  with Findable_extends(1) [OF assms]
  have p: "take (length locations) p = locations"
    and tr: "traceFrom board row col locations (drop (length locations) p) (ConvertToUpperCase word)"
    by (simp_all add: extends_new(2))
  let ?ext = "drop (length locations) p"
  from tr have tokens: "map (\<lambda>l. elems board (numRow l) (numCol l)) ?ext = map (\<lambda>c. [c]) (ConvertToUpperCase word)"
    by (simp add: traceFrom_def)
  then have "length ?ext = length word"
    by (metis length_map length_ConvertToUpperCase)
  moreover from p have "length locations \<le> length p"
    by (metis length_take min.cobounded1)
  ultimately have len: "length p = length locations + length word" by simp
  have "length (elems board (numRow l) (numCol l)) = 1" if "l \<in> set ?ext" for l
  proof -
    from that have "elems board (numRow l) (numCol l) \<in> set (map (\<lambda>l. elems board (numRow l) (numCol l)) ?ext)"
      by simp
    with tokens show ?thesis by auto
  qed
  with tokens len show "map (\<lambda>l. elems board (numRow l) (numCol l)) ?ext = map (\<lambda>c. [c]) (ConvertToUpperCase word)
         \<and> length p = length locations + length word
         \<and> (\<forall>l \<in> set ?ext. length (elems board (numRow l) (numCol l)) = 1)"
    by blast
qed

theorem Findable_one_character_per_cell_witness:
  "Findable scenarioBoard ''Cat'' (-1) (-1) [] []
     = Inr [[\<lparr>numRow = 0, numCol = 0\<rparr>, \<lparr>numRow = 0, numCol = 1\<rparr>, \<lparr>numRow = 0, numCol = 2\<rparr>]]
   \<and> map (\<lambda>l. elems scenarioBoard (numRow l) (numCol l))
         [\<lparr>numRow = 0, numCol = 0\<rparr>, \<lparr>numRow = 0, numCol = 1\<rparr>, \<lparr>numRow = 0, numCol = 2\<rparr>]
       = map (\<lambda>c. [c]) (ConvertToUpperCase ''Cat'')"
proof -
  have run: "Findable scenarioBoard ''Cat'' (-1) (-1) [] []
     = Inr [[\<lparr>numRow = 0, numCol = 0\<rparr>, \<lparr>numRow = 0, numCol = 1\<rparr>, \<lparr>numRow = 0, numCol = 2\<rparr>]]"
    by code_simp
  from Findable_one_character_per_cell [OF run] run show ?thesis by simp
qed

section \<open>The validity gate\<close>

lemma WordIsValid_cases:
  "WordIsValid word lx g =
     (if length word < 4 \<or> word \<in> g_wordsSeen g \<or> \<not> containsWord lx word then Inr (False, g)
      else case Findable (g_board g) word (-1) (-1) [] [] of
             Inl e \<Rightarrow> Inl e
           | Inr results \<Rightarrow>
               if results = [] then Inr (False, g)
               else Inr (True, g\<lparr>g_display := g_display g
                       @ map (\<lambda>l. HighlightCube (numRow l) (numCol l) True) (hd results)
                       @ [Pause]
                       @ map (\<lambda>l. HighlightCube (numRow l) (numCol l) False) (hd results)\<rparr>))"
  by (auto simp: WordIsValid_def Let_def simp del: Findable.simps split: sum.splits)

text \<open>
  C1. \<open>WordIsValid\<close> returns true exactly when the word has at least four characters, is
  not among the claimed words, is a word of the lexicon, and \<open>Findable\<close>, seeded with the
  sentinel, returns at least one path; it returns false exactly when one of the four
  checks fails.
\<close>

theorem WordIsValid_iff:
  "((\<exists>g'. WordIsValid word lx g = Inr (True, g'))
      \<longleftrightarrow> 4 \<le> length word \<and> word \<notin> g_wordsSeen g \<and> containsWord lx word
          \<and> (\<exists>results. Findable (g_board g) word (-1) (-1) [] [] = Inr results \<and> results \<noteq> []))
   \<and> ((\<exists>g'. WordIsValid word lx g = Inr (False, g'))
      \<longleftrightarrow> length word < 4 \<or> word \<in> g_wordsSeen g \<or> \<not> containsWord lx word
          \<or> Findable (g_board g) word (-1) (-1) [] [] = Inr [])"
proof (cases "length word < 4 \<or> word \<in> g_wordsSeen g \<or> \<not> containsWord lx word")
  case True
  then have "WordIsValid word lx g = Inr (False, g)"
    by (simp only: WordIsValid_cases if_True)
  with True show ?thesis by auto
next
  case False
  then have gate: "WordIsValid word lx g =
      (case Findable (g_board g) word (-1) (-1) [] [] of
         Inl e \<Rightarrow> Inl e
       | Inr results \<Rightarrow>
           if results = [] then Inr (False, g)
           else Inr (True, g\<lparr>g_display := g_display g
                   @ map (\<lambda>l. HighlightCube (numRow l) (numCol l) True) (hd results)
                   @ [Pause]
                   @ map (\<lambda>l. HighlightCube (numRow l) (numCol l) False) (hd results)\<rparr>))"
    by (simp only: WordIsValid_cases if_False)
  show ?thesis
  proof (cases "Findable (g_board g) word (-1) (-1) [] []")
    case (Inl e)
    with gate False show ?thesis by auto
  next
    case (Inr results)
    with gate False show ?thesis by (cases "results = []") auto
  qed
qed

theorem WordIsValid_iff_witness:
  "(\<exists>g'. WordIsValid ''CATS'' (lexiconOf [''CAT'', ''CATS''])
            \<lparr>g_board = scenarioBoard, g_wordsSeen = {}, g_display = []\<rparr> = Inr (True, g'))
   \<and> (\<exists>g'. WordIsValid ''CAT'' (lexiconOf [''CAT'', ''CATS''])
            \<lparr>g_board = scenarioBoard, g_wordsSeen = {}, g_display = []\<rparr> = Inr (False, g'))
   \<and> (\<exists>g'. WordIsValid ''CATS'' (lexiconOf [''CAT'', ''CATS''])
            \<lparr>g_board = scenarioBoard, g_wordsSeen = {''CATS''}, g_display = []\<rparr> = Inr (False, g'))"
proof -
  let ?lx = "lexiconOf [''CAT'', ''CATS'']"
  let ?g = "\<lparr>g_board = scenarioBoard, g_wordsSeen = {}, g_display = []\<rparr>"
  let ?g1 = "\<lparr>g_board = scenarioBoard, g_wordsSeen = {''CATS''}, g_display = []\<rparr>"
  have "Findable scenarioBoard ''CATS'' (-1) (-1) [] []
     = Inr [[\<lparr>numRow = 0, numCol = 0\<rparr>, \<lparr>numRow = 0, numCol = 1\<rparr>, \<lparr>numRow = 0, numCol = 2\<rparr>, \<lparr>numRow = 0, numCol = 3\<rparr>]]"
    by code_simp
  moreover have "containsWord ?lx ''CATS''"
    by (simp add: lexiconOf_def)
  ultimately have "\<exists>g'. WordIsValid ''CATS'' ?lx ?g = Inr (True, g')"
    using WordIsValid_iff [of "''CATS''" ?lx ?g] by simp
  moreover have "\<exists>g'. WordIsValid ''CAT'' ?lx ?g = Inr (False, g')"
    using WordIsValid_iff [of "''CAT''" ?lx ?g] by simp
  moreover have "\<exists>g'. WordIsValid ''CATS'' ?lx ?g1 = Inr (False, g')"
    using WordIsValid_iff [of "''CATS''" ?lx ?g1] by simp
  ultimately show ?thesis by blast
qed

section \<open>The enumeration\<close>

lemma FindAllWords_outside:
  "\<not> inBounds board row col
     \<Longrightarrow> FindAllWords row col board lx wordsSeen soFar0 visited0 disp = Inl GridOutOfRange"
  by (simp add: getAt_def Let_def)

lemma FindAllWords_pruned:
  "inBounds board row col \<Longrightarrow> \<not> containsPrefix lx (soFar0 @ elems board row col)
     \<Longrightarrow> FindAllWords row col board lx wordsSeen soFar0 visited0 disp = Inr (wordsSeen, disp)"
  by (simp add: getAt_def Let_def)

lemma FindAllWords_record:
  "inBounds board row col \<Longrightarrow> containsPrefix lx (soFar0 @ elems board row col)
     \<Longrightarrow> containsWord lx (soFar0 @ elems board row col) \<and> soFar0 @ elems board row col \<notin> wordsSeen
          \<and> length (soFar0 @ elems board row col) > 3
     \<Longrightarrow> FindAllWords row col board lx wordsSeen soFar0 visited0 disp =
         FindAllWords_scan row col board lx (insert (soFar0 @ elems board row col) wordsSeen)
           (soFar0 @ elems board row col) (visited0 @ [\<lparr>numRow = row, numCol = col\<rparr>]) (cells board)
           (disp @ [RecordWordForPlayer (soFar0 @ elems board row col) Computer])"
  by (simp add: getAt_def Let_def)

lemma FindAllWords_skip:
  "inBounds board row col \<Longrightarrow> containsPrefix lx (soFar0 @ elems board row col)
     \<Longrightarrow> \<not> (containsWord lx (soFar0 @ elems board row col) \<and> soFar0 @ elems board row col \<notin> wordsSeen
          \<and> length (soFar0 @ elems board row col) > 3)
     \<Longrightarrow> FindAllWords row col board lx wordsSeen soFar0 visited0 disp =
         FindAllWords_scan row col board lx wordsSeen
           (soFar0 @ elems board row col) (visited0 @ [\<lparr>numRow = row, numCol = col\<rparr>]) (cells board) disp"
  by (auto simp: getAt_def Let_def)

lemma FindAllWords_scan_skip:
  "\<not> (AreNeighbors row col i j \<and> NotDuplicated i j visited)
     \<Longrightarrow> FindAllWords_scan row col board lx wordsSeen soFar visited ((i, j) # rest) disp =
         FindAllWords_scan row col board lx wordsSeen soFar visited rest disp"
  by auto

lemma FindAllWords_scan_visit:
  "AreNeighbors row col i j \<and> NotDuplicated i j visited
     \<Longrightarrow> FindAllWords i j board lx wordsSeen soFar visited disp = Inr (wordsSeen1, disp1)
     \<Longrightarrow> FindAllWords_scan row col board lx wordsSeen soFar visited ((i, j) # rest) disp =
         FindAllWords_scan row col board lx wordsSeen1 soFar visited rest disp1"
  by auto

lemma FindAllWords_scan_fault:
  "AreNeighbors row col i j \<and> NotDuplicated i j visited
     \<Longrightarrow> FindAllWords i j board lx wordsSeen soFar visited disp = Inl e
     \<Longrightarrow> FindAllWords_scan row col board lx wordsSeen soFar visited ((i, j) # rest) disp = Inl e"
  by auto

lemma FindAllWords_scan_Nil:
  "FindAllWords_scan row col board lx wordsSeen soFar visited [] disp = Inr (wordsSeen, disp)"
  by simp

declare FindAllWords.simps [simp del] FindAllWords_scan.simps [simp del]

lemma FindAllWords_returns:
  "inBounds board row col \<Longrightarrow> \<exists>r. FindAllWords row col board lx wordsSeen soFar0 visited0 disp = Inr r"
  "set cs \<subseteq> set (cells board)
     \<Longrightarrow> \<exists>r. FindAllWords_scan row col board lx wordsSeen soFar visited cs disp = Inr r"
proof (induction row col board lx wordsSeen soFar0 visited0 disp
    and row col board lx wordsSeen soFar visited cs disp rule: FindAllWords_FindAllWords_scan.induct)
  case (1 row col board lx wordsSeen soFar0 visited0 disp)
  let ?here = "\<lparr>numRow = row, numCol = col\<rparr>"
  let ?soFar = "soFar0 @ elems board row col"
  note inb = "1.prems"
  then have get: "getAt board row col = Inr (elems board row col)"
    by (simp add: getAt_def)
  show ?case
  proof (cases "containsPrefix lx ?soFar")
    case False
    with inb show ?thesis by (simp add: FindAllWords_pruned)
  next
    case prefix: True
    then have nn: "\<not> \<not> containsPrefix lx ?soFar" by simp
    show ?thesis
    proof (cases "containsWord lx ?soFar \<and> ?soFar \<notin> wordsSeen \<and> length ?soFar > 3")
      case True
      from "1.IH"(1) [OF refl refl get refl nn True subset_refl]
      show ?thesis by (simp only: FindAllWords_record [OF inb prefix True])
    next
      case False
      from "1.IH"(2) [OF refl refl get refl nn False subset_refl]
      show ?thesis by (simp only: FindAllWords_skip [OF inb prefix False])
    qed
  qed
next
  case (2 row col board lx wordsSeen soFar visited disp)
  show ?case by (simp add: FindAllWords_scan_Nil)
next
  case (3 row col board lx wordsSeen soFar visited i j rest disp)
  from "3.prems" have inb: "inBounds board i j" and sub: "set rest \<subseteq> set (cells board)"
    by (simp_all add: set_cells)
  show ?case
  proof (cases "AreNeighbors row col i j \<and> NotDuplicated i j visited")
    case False
    from "3.IH"(3) [OF False sub] show ?thesis
      by (simp only: FindAllWords_scan_skip [OF False])
  next
    case True
    from "3.IH"(1) [OF True inb] obtain ws1 d1
      where rec: "FindAllWords i j board lx wordsSeen soFar visited disp = Inr (ws1, d1)"
      by (metis surj_pair)
    from "3.IH"(2) [OF True rec refl sub] obtain r
      where "FindAllWords_scan row col board lx ws1 soFar visited rest d1 = Inr r"
      by blast
    then show ?thesis
      by (simp add: FindAllWords_scan_visit [OF True rec])
  qed
qed

lemma found_unfold:
  "found board lx row col soFar0 visited0 =
     (if inBounds board row col \<and> containsPrefix lx (soFar0 @ elems board row col) then
        (if containsWord lx (soFar0 @ elems board row col) \<and> length (soFar0 @ elems board row col) > 3
         then {soFar0 @ elems board row col} else {})
        \<union> foundNext board lx row col (soFar0 @ elems board row col)
            (visited0 @ [\<lparr>numRow = row, numCol = col\<rparr>]) (cells board)
      else {})"
  (is "?L = ?R")
proof
  show "?L \<subseteq> ?R"
  proof
    fix w assume "w \<in> ?L"
    then have ex: "explores board lx row col soFar0 visited0 w" and word: "containsWord lx w" "length w > 3"
      by (simp_all add: found_def)
    from ex word show "w \<in> ?R"
      by (cases rule: explores.cases) (auto simp: foundNext_def found_def)
  qed
  show "?R \<subseteq> ?L"
    by (auto simp: foundNext_def found_def split: if_splits intro: explores.here explores.step)
qed

lemma foundNext_Nil: "foundNext board lx row col soFar visited [] = {}"
  by (simp add: foundNext_def)

lemma foundNext_Cons:
  "foundNext board lx row col soFar visited ((i, j) # rest) =
     (if AreNeighbors row col i j \<and> NotDuplicated i j visited then found board lx i j soFar visited else {})
     \<union> foundNext board lx row col soFar visited rest"
  by (auto simp: foundNext_def)

lemma foundNext_skip:
  "\<not> (AreNeighbors row col i j \<and> NotDuplicated i j visited)
     \<Longrightarrow> foundNext board lx row col soFar visited ((i, j) # rest) = foundNext board lx row col soFar visited rest"
  by (auto simp: foundNext_Cons)

lemma foundNext_visit:
  "AreNeighbors row col i j \<and> NotDuplicated i j visited
     \<Longrightarrow> foundNext board lx row col soFar visited ((i, j) # rest) =
         found board lx i j soFar visited \<union> foundNext board lx row col soFar visited rest"
  by (auto simp: foundNext_Cons)

lemma grows_refl: "grows {} wordsSeen disp (wordsSeen, disp)"
  by (simp add: grows_def)

lemma grows_trans:
  assumes "grows F1 wordsSeen disp (ws1, d1)" and "grows F2 ws1 d1 r"
  shows "grows (F1 \<union> F2) wordsSeen disp r"
proof -
  from assms(1) obtain n1 where ws1: "ws1 = wordsSeen \<union> F1"
    and d1: "d1 = disp @ map (\<lambda>w. RecordWordForPlayer w Computer) n1" and n1: "set n1 = F1 - wordsSeen"
    by (auto simp: grows_def)
  from assms(2) obtain n2 where r1: "fst r = ws1 \<union> F2"
    and r2: "snd r = d1 @ map (\<lambda>w. RecordWordForPlayer w Computer) n2" and n2: "set n2 = F2 - ws1"
    by (auto simp: grows_def)
  from ws1 r1 have "fst r = wordsSeen \<union> (F1 \<union> F2)" by auto
  moreover from d1 r2 have "snd r = disp @ map (\<lambda>w. RecordWordForPlayer w Computer) (n1 @ n2)" by simp
  moreover from n1 n2 ws1 have "set (n1 @ n2) = (F1 \<union> F2) - wordsSeen" by auto
  ultimately show ?thesis unfolding grows_def by blast
qed

lemma grows_cong:
  "wordsSeen \<union> F = wordsSeen \<union> F' \<Longrightarrow> grows F wordsSeen disp r \<Longrightarrow> grows F' wordsSeen disp r"
proof -
  assume eq: "wordsSeen \<union> F = wordsSeen \<union> F'" and g: "grows F wordsSeen disp r"
  from eq have "F - wordsSeen = F' - wordsSeen" by blast
  with g eq show ?thesis by (simp add: grows_def)
qed

lemma grows_record:
  "w \<notin> wordsSeen \<Longrightarrow> grows {w} wordsSeen disp (insert w wordsSeen, disp @ [RecordWordForPlayer w Computer])"
  unfolding grows_def by (auto intro: exI [of _ "[w]"])

lemma FindAllWords_grows:
  "FindAllWords row col board lx wordsSeen soFar0 visited0 disp = Inr r
     \<Longrightarrow> grows (found board lx row col soFar0 visited0) wordsSeen disp r"
  "FindAllWords_scan row col board lx wordsSeen soFar visited cs disp = Inr r
     \<Longrightarrow> grows (foundNext board lx row col soFar visited cs) wordsSeen disp r"
proof (induction row col board lx wordsSeen soFar0 visited0 disp
    and row col board lx wordsSeen soFar visited cs disp arbitrary: r and r
    rule: FindAllWords_FindAllWords_scan.induct)
  case (1 row col board lx wordsSeen soFar0 visited0 disp)
  let ?here = "\<lparr>numRow = row, numCol = col\<rparr>"
  let ?soFar = "soFar0 @ elems board row col"
  let ?next = "foundNext board lx row col ?soFar (visited0 @ [?here]) (cells board)"
  from "1.prems" have inb: "inBounds board row col"
    by (cases "inBounds board row col") (simp_all add: FindAllWords_outside)
  then have get: "getAt board row col = Inr (elems board row col)"
    by (simp add: getAt_def)
  show ?case
  proof (cases "containsPrefix lx ?soFar")
    case False
    with inb "1.prems" have "r = (wordsSeen, disp)"
      by (simp add: FindAllWords_pruned)
    moreover from False have "found board lx row col soFar0 visited0 = {}"
      by (simp add: found_unfold)
    ultimately show ?thesis by (simp add: grows_refl)
  next
    case prefix: True
    then have nn: "\<not> \<not> containsPrefix lx ?soFar" by simp
    show ?thesis
    proof (cases "containsWord lx ?soFar \<and> ?soFar \<notin> wordsSeen \<and> length ?soFar > 3")
      case True
      with inb prefix have F: "found board lx row col soFar0 visited0 = {?soFar} \<union> ?next"
        by (simp add: found_unfold)
      from "1.prems" have "FindAllWords_scan row col board lx (insert ?soFar wordsSeen) ?soFar
          (visited0 @ [?here]) (cells board) (disp @ [RecordWordForPlayer ?soFar Computer]) = Inr r"
        by (simp only: FindAllWords_record [OF inb prefix True])
      from "1.IH"(1) [OF refl refl get refl nn True this]
      have "grows ?next (insert ?soFar wordsSeen) (disp @ [RecordWordForPlayer ?soFar Computer]) r" .
      moreover from True have "grows {?soFar} wordsSeen disp
          (insert ?soFar wordsSeen, disp @ [RecordWordForPlayer ?soFar Computer])"
        by (intro grows_record) simp
      ultimately have "grows ({?soFar} \<union> ?next) wordsSeen disp r"
        by (rule grows_trans [rotated])
      with F show ?thesis by simp
    next
      case False
      from "1.prems" have "FindAllWords_scan row col board lx wordsSeen ?soFar
          (visited0 @ [?here]) (cells board) disp = Inr r"
        by (simp only: FindAllWords_skip [OF inb prefix False])
      from "1.IH"(2) [OF refl refl get refl nn False this]
      have g: "grows ?next wordsSeen disp r" .
      from inb prefix False have "wordsSeen \<union> ?next = wordsSeen \<union> found board lx row col soFar0 visited0"
        by (auto simp: found_unfold)
      from grows_cong [OF this g] show ?thesis .
    qed
  qed
next
  case (2 row col board lx wordsSeen soFar visited disp)
  then have "r = (wordsSeen, disp)" by (simp add: FindAllWords_scan_Nil)
  then show ?case by (simp add: foundNext_Nil grows_refl)
next
  case (3 row col board lx wordsSeen soFar visited i j rest disp)
  show ?case
  proof (cases "AreNeighbors row col i j \<and> NotDuplicated i j visited")
    case False
    from "3.prems" have "FindAllWords_scan row col board lx wordsSeen soFar visited rest disp = Inr r"
      by (simp only: FindAllWords_scan_skip [OF False])
    from "3.IH"(3) [OF False this] show ?thesis
      by (simp only: foundNext_skip [OF False])
  next
    case True
    show ?thesis
    proof (cases "FindAllWords i j board lx wordsSeen soFar visited disp")
      case (Inl e)
      with "3.prems" True show ?thesis
        by (simp add: FindAllWords_scan_fault)
    next
      case (Inr r1)
      obtain ws1 d1 where r1: "r1 = (ws1, d1)" by (cases r1)
      from Inr r1 have rec: "FindAllWords i j board lx wordsSeen soFar visited disp = Inr (ws1, d1)"
        by simp
      from "3.prems" have scan: "FindAllWords_scan row col board lx ws1 soFar visited rest d1 = Inr r"
        by (simp only: FindAllWords_scan_visit [OF True rec])
      from "3.IH"(1) [OF True rec]
      have "grows (found board lx i j soFar visited) wordsSeen disp (ws1, d1)" .
      moreover from "3.IH"(2) [OF True rec refl scan]
      have "grows (foundNext board lx row col soFar visited rest) ws1 d1 r" .
      ultimately have "grows (found board lx i j soFar visited \<union> foundNext board lx row col soFar visited rest)
          wordsSeen disp r"
        by (rule grows_trans)
      then show ?thesis by (simp only: foundNext_visit [OF True])
    qed
  qed
qed

lemma explores_prefix:
  "explores board lx row col soFar0 visited0 w \<Longrightarrow> \<exists>s. w = soFar0 @ elems board row col @ s"
  by (induction rule: explores.induct) auto

lemma withoutPruning_simps [simp]:
  "containsWord (withoutPruning lx) = containsWord lx"
  "containsPrefix (withoutPruning lx) s = True"
  by (simp_all add: withoutPruning_def)

lemma found_withoutPruning_empty:
  assumes "coherent lx" and "\<not> containsPrefix lx (soFar0 @ elems board row col)"
  shows "found board (withoutPruning lx) row col soFar0 visited0 = {}"
proof -
  have False if "w \<in> found board (withoutPruning lx) row col soFar0 visited0" for w
  proof -
    from that have "explores board (withoutPruning lx) row col soFar0 visited0 w" and "containsWord lx w"
      by (simp_all add: found_def)
    then obtain s where "w = (soFar0 @ elems board row col) @ s" and "containsWord lx w"
      by (auto dest: explores_prefix)
    with assms(1) have "containsPrefix lx (soFar0 @ elems board row col)"
      unfolding coherent_def by blast
    with assms(2) show False by simp
  qed
  then show ?thesis by blast
qed

lemma grows_empty: "grows {} wordsSeen disp r \<Longrightarrow> r = (wordsSeen, disp)"
  by (cases r) (auto simp: grows_def)

lemma FindAllWords_withoutPruning:
  "coherent lx \<Longrightarrow> FindAllWords row col board (withoutPruning lx) wordsSeen soFar0 visited0 disp
      = FindAllWords row col board lx wordsSeen soFar0 visited0 disp"
  "coherent lx \<Longrightarrow> FindAllWords_scan row col board (withoutPruning lx) wordsSeen soFar visited cs disp
      = FindAllWords_scan row col board lx wordsSeen soFar visited cs disp"
proof (induction row col board lx wordsSeen soFar0 visited0 disp
    and row col board lx wordsSeen soFar visited cs disp
    rule: FindAllWords_FindAllWords_scan.induct)
  case (1 row col board lx wordsSeen soFar0 visited0 disp)
  let ?here = "\<lparr>numRow = row, numCol = col\<rparr>"
  let ?soFar = "soFar0 @ elems board row col"
  let ?lxT = "withoutPruning lx"
  show ?case
  proof (cases "inBounds board row col")
    case False
    then show ?thesis by (simp add: FindAllWords_outside)
  next
    case inb: True
    then have get: "getAt board row col = Inr (elems board row col)"
      by (simp add: getAt_def)
    have prefixT: "containsPrefix ?lxT ?soFar" by simp
    show ?thesis
    proof (cases "containsPrefix lx ?soFar")
      case False
      from FindAllWords_returns(1) [OF inb] obtain r
        where r: "FindAllWords row col board ?lxT wordsSeen soFar0 visited0 disp = Inr r"
        by blast
      from FindAllWords_grows(1) [OF r] found_withoutPruning_empty [OF "1.prems" False]
      have "r = (wordsSeen, disp)" by (simp add: grows_empty)
      with r inb False show ?thesis by (simp add: FindAllWords_pruned)
    next
      case prefix: True
      then have nn: "\<not> \<not> containsPrefix lx ?soFar" by simp
      show ?thesis
      proof (cases "containsWord lx ?soFar \<and> ?soFar \<notin> wordsSeen \<and> length ?soFar > 3")
        case True
        then have TrueT: "containsWord ?lxT ?soFar \<and> ?soFar \<notin> wordsSeen \<and> length ?soFar > 3"
          by simp
        from "1.IH"(1) [OF refl refl get refl nn True "1.prems"] show ?thesis
          by (simp only: FindAllWords_record [OF inb prefix True] FindAllWords_record [OF inb prefixT TrueT])
      next
        case False
        then have FalseT: "\<not> (containsWord ?lxT ?soFar \<and> ?soFar \<notin> wordsSeen \<and> length ?soFar > 3)"
          by simp
        from "1.IH"(2) [OF refl refl get refl nn False "1.prems"] show ?thesis
          by (simp only: FindAllWords_skip [OF inb prefix False] FindAllWords_skip [OF inb prefixT FalseT])
      qed
    qed
  qed
next
  case (2 row col board lx wordsSeen soFar visited disp)
  show ?case by (simp add: FindAllWords_scan_Nil)
next
  case (3 row col board lx wordsSeen soFar visited i j rest disp)
  let ?lxT = "withoutPruning lx"
  show ?case
  proof (cases "AreNeighbors row col i j \<and> NotDuplicated i j visited")
    case False
    from "3.IH"(3) [OF False "3.prems"] show ?thesis
      by (simp only: FindAllWords_scan_skip [OF False])
  next
    case True
    from "3.IH"(1) [OF True "3.prems"]
    have same: "FindAllWords i j board ?lxT wordsSeen soFar visited disp
        = FindAllWords i j board lx wordsSeen soFar visited disp" .
    show ?thesis
    proof (cases "FindAllWords i j board lx wordsSeen soFar visited disp")
      case (Inl e)
      with same True show ?thesis by (simp add: FindAllWords_scan_fault)
    next
      case (Inr r1)
      obtain ws1 d1 where r1: "r1 = (ws1, d1)" by (cases r1)
      from Inr r1 have rec: "FindAllWords i j board lx wordsSeen soFar visited disp = Inr (ws1, d1)"
        by simp
      with same have recT: "FindAllWords i j board ?lxT wordsSeen soFar visited disp = Inr (ws1, d1)"
        by simp
      from "3.IH"(2) [OF True rec refl "3.prems"] show ?thesis
        by (simp only: FindAllWords_scan_visit [OF True rec] FindAllWords_scan_visit [OF True recT])
    qed
  qed
qed

lemma ComputerTurn_scan_withoutPruning:
  "coherent lx \<Longrightarrow> ComputerTurn_scan board (withoutPruning lx) wordsSeen cs disp
      = ComputerTurn_scan board lx wordsSeen cs disp"
  by (induction board lx wordsSeen cs disp rule: ComputerTurn_scan.induct)
    (auto simp: FindAllWords_withoutPruning split: sum.splits)

lemma ComputerTurn_scan_returns:
  "set cs \<subseteq> set (cells board) \<Longrightarrow> \<exists>r. ComputerTurn_scan board lx wordsSeen cs disp = Inr r"
proof (induction board lx wordsSeen cs disp rule: ComputerTurn_scan.induct)
  case (1 board lx wordsSeen disp)
  show ?case by simp
next
  case (2 board lx wordsSeen i j rest disp)
  from "2.prems" have inb: "inBounds board i j" and sub: "set rest \<subseteq> set (cells board)"
    by (simp_all add: set_cells)
  from FindAllWords_returns(1) [OF inb] obtain ws1 d1
    where rec: "FindAllWords i j board lx wordsSeen [] [] disp = Inr (ws1, d1)"
    by (metis surj_pair)
  from "2.IH" [OF rec refl sub] rec show ?case by simp
qed

lemma ComputerTurn_scan_grows:
  "ComputerTurn_scan board lx wordsSeen cs disp = Inr r
     \<Longrightarrow> grows (enumerated board lx cs) wordsSeen disp r"
proof (induction board lx wordsSeen cs disp arbitrary: r rule: ComputerTurn_scan.induct)
  case (1 board lx wordsSeen disp)
  then show ?case by (auto simp: enumerated_def grows_refl)
next
  case (2 board lx wordsSeen i j rest disp)
  from "2.prems" obtain ws1 d1
    where rec: "FindAllWords i j board lx wordsSeen [] [] disp = Inr (ws1, d1)"
      and scan: "ComputerTurn_scan board lx ws1 rest d1 = Inr r"
    by (auto split: sum.splits)
  from FindAllWords_grows(1) [OF rec] "2.IH" [OF rec refl scan]
  have "grows (found board lx i j [] [] \<union> enumerated board lx rest) wordsSeen disp r"
    by (rule grows_trans)
  then show ?case by (simp add: enumerated_def)
qed

lemma FindAllWords_unpruned_outside:
  "\<not> inBounds board row col
     \<Longrightarrow> FindAllWords_unpruned row col board lx wordsSeen soFar0 visited0 disp = Inl GridOutOfRange"
  by (simp add: getAt_def Let_def)

lemma FindAllWords_unpruned_record:
  "inBounds board row col
     \<Longrightarrow> containsWord lx (soFar0 @ elems board row col) \<and> soFar0 @ elems board row col \<notin> wordsSeen
          \<and> length (soFar0 @ elems board row col) > 3
     \<Longrightarrow> FindAllWords_unpruned row col board lx wordsSeen soFar0 visited0 disp =
         FindAllWords_unpruned_scan row col board lx (insert (soFar0 @ elems board row col) wordsSeen)
           (soFar0 @ elems board row col) (visited0 @ [\<lparr>numRow = row, numCol = col\<rparr>]) (cells board)
           (disp @ [RecordWordForPlayer (soFar0 @ elems board row col) Computer])"
  by (simp add: getAt_def Let_def)

lemma FindAllWords_unpruned_skip:
  "inBounds board row col
     \<Longrightarrow> \<not> (containsWord lx (soFar0 @ elems board row col) \<and> soFar0 @ elems board row col \<notin> wordsSeen
          \<and> length (soFar0 @ elems board row col) > 3)
     \<Longrightarrow> FindAllWords_unpruned row col board lx wordsSeen soFar0 visited0 disp =
         FindAllWords_unpruned_scan row col board lx wordsSeen
           (soFar0 @ elems board row col) (visited0 @ [\<lparr>numRow = row, numCol = col\<rparr>]) (cells board) disp"
  by (auto simp: getAt_def Let_def)

lemma FindAllWords_unpruned_scan_Nil:
  "FindAllWords_unpruned_scan row col board lx wordsSeen soFar visited [] disp = Inr (wordsSeen, disp)"
  by simp

lemma FindAllWords_unpruned_scan_skip:
  "\<not> (AreNeighbors row col i j \<and> NotDuplicated i j visited)
     \<Longrightarrow> FindAllWords_unpruned_scan row col board lx wordsSeen soFar visited ((i, j) # rest) disp =
         FindAllWords_unpruned_scan row col board lx wordsSeen soFar visited rest disp"
  by auto

lemma FindAllWords_unpruned_scan_visit:
  "AreNeighbors row col i j \<and> NotDuplicated i j visited
     \<Longrightarrow> FindAllWords_unpruned_scan row col board lx wordsSeen soFar visited ((i, j) # rest) disp =
         (case FindAllWords_unpruned i j board lx wordsSeen soFar visited disp of
            Inl e \<Rightarrow> Inl e
          | Inr (wordsSeen1, disp1) \<Rightarrow>
              FindAllWords_unpruned_scan row col board lx wordsSeen1 soFar visited rest disp1)"
  by auto

lemma FindAllWords_scan_visit_case:
  "AreNeighbors row col i j \<and> NotDuplicated i j visited
     \<Longrightarrow> FindAllWords_scan row col board lx wordsSeen soFar visited ((i, j) # rest) disp =
         (case FindAllWords i j board lx wordsSeen soFar visited disp of
            Inl e \<Rightarrow> Inl e
          | Inr (wordsSeen1, disp1) \<Rightarrow> FindAllWords_scan row col board lx wordsSeen1 soFar visited rest disp1)"
  by (simp add: FindAllWords_scan.simps)

declare FindAllWords_unpruned.simps [simp del] FindAllWords_unpruned_scan.simps [simp del]

lemma FindAllWords_unpruned_eq:
  "FindAllWords_unpruned row col board lx wordsSeen soFar0 visited0 disp
      = FindAllWords row col board (withoutPruning lx) wordsSeen soFar0 visited0 disp"
  "FindAllWords_unpruned_scan row col board lx wordsSeen soFar visited cs disp
      = FindAllWords_scan row col board (withoutPruning lx) wordsSeen soFar visited cs disp"
proof (induction row col board lx wordsSeen soFar0 visited0 disp
    and row col board lx wordsSeen soFar visited cs disp
    rule: FindAllWords_unpruned_FindAllWords_unpruned_scan.induct)
  case (1 row col board lx wordsSeen soFar0 visited0 disp)
  let ?soFar = "soFar0 @ elems board row col"
  let ?lxT = "withoutPruning lx"
  show ?case
  proof (cases "inBounds board row col")
    case False
    then show ?thesis by (simp add: FindAllWords_outside FindAllWords_unpruned_outside)
  next
    case inb: True
    then have get: "getAt board row col = Inr (elems board row col)"
      by (simp add: getAt_def)
    have prefixT: "containsPrefix ?lxT ?soFar" by simp
    show ?thesis
    proof (cases "containsWord lx ?soFar \<and> ?soFar \<notin> wordsSeen \<and> length ?soFar > 3")
      case True
      then have TrueT: "containsWord ?lxT ?soFar \<and> ?soFar \<notin> wordsSeen \<and> length ?soFar > 3"
        by simp
      from "1.IH"(1) [OF refl refl get refl True] show ?thesis
        by (simp only: FindAllWords_unpruned_record [OF inb True] FindAllWords_record [OF inb prefixT TrueT])
    next
      case False
      then have FalseT: "\<not> (containsWord ?lxT ?soFar \<and> ?soFar \<notin> wordsSeen \<and> length ?soFar > 3)"
        by simp
      from "1.IH"(2) [OF refl refl get refl False] show ?thesis
        by (simp only: FindAllWords_unpruned_skip [OF inb False] FindAllWords_skip [OF inb prefixT FalseT])
    qed
  qed
next
  case (2 row col board lx wordsSeen soFar visited disp)
  show ?case by (simp add: FindAllWords_scan_Nil FindAllWords_unpruned_scan_Nil)
next
  case (3 row col board lx wordsSeen soFar visited i j rest disp)
  let ?lxT = "withoutPruning lx"
  show ?case
  proof (cases "AreNeighbors row col i j \<and> NotDuplicated i j visited")
    case False
    from "3.IH"(3) [OF False] show ?thesis
      by (simp only: FindAllWords_scan_skip [OF False] FindAllWords_unpruned_scan_skip [OF False])
  next
    case True
    have "(case FindAllWords_unpruned i j board lx wordsSeen soFar visited disp of
            Inl e \<Rightarrow> Inl e
          | Inr (wordsSeen1, disp1) \<Rightarrow>
              FindAllWords_unpruned_scan row col board lx wordsSeen1 soFar visited rest disp1)
      = (case FindAllWords i j board ?lxT wordsSeen soFar visited disp of
            Inl e \<Rightarrow> Inl e
          | Inr (wordsSeen1, disp1) \<Rightarrow> FindAllWords_scan row col board ?lxT wordsSeen1 soFar visited rest disp1)"
    proof (cases "FindAllWords_unpruned i j board lx wordsSeen soFar visited disp")
      case (Inl e)
      moreover from Inl "3.IH"(1) [OF True]
      have "FindAllWords i j board ?lxT wordsSeen soFar visited disp = Inl e" by simp
      ultimately show ?thesis by simp
    next
      case (Inr r1)
      obtain ws1 d1 where r1: "r1 = (ws1, d1)" by (cases r1)
      with Inr have rec: "FindAllWords_unpruned i j board lx wordsSeen soFar visited disp = Inr (ws1, d1)"
        by simp
      with "3.IH"(1) [OF True]
      have recT: "FindAllWords i j board ?lxT wordsSeen soFar visited disp = Inr (ws1, d1)" by simp
      from "3.IH"(2) [OF True rec refl] show ?thesis by (simp add: rec recT)
    qed
    then show ?thesis
      by (simp only: FindAllWords_scan_visit_case [OF True] FindAllWords_unpruned_scan_visit [OF True])
  qed
qed

lemma ComputerTurn_unpruned_scan_eq:
  "ComputerTurn_unpruned_scan board lx wordsSeen cs disp
     = ComputerTurn_scan board (withoutPruning lx) wordsSeen cs disp"
  by (induction board lx wordsSeen cs disp rule: ComputerTurn_unpruned_scan.induct)
    (auto simp: FindAllWords_unpruned_eq split: sum.splits)

lemma ComputerTurn_unpruned_eq: "ComputerTurn_unpruned lx g = ComputerTurn (withoutPruning lx) g"
  by (simp add: ComputerTurn_unpruned_def ComputerTurn_def ComputerTurn_unpruned_scan_eq)

text \<open>
  C3. For a coherent lexicon, the computer's turn run on \<open>FindAllWords_unpruned\<close>, which
  has no prefix check and always records and recurses, ends in the very state the pruned
  turn ends in: the same claimed words and the same words recorded for the computer, in
  the same order.
\<close>

theorem pruning_equivalence:
  assumes "coherent lx"
  shows "\<exists>g'. ComputerTurn lx g = Inr g' \<and> ComputerTurn_unpruned lx g = Inr g'"
proof -
  from ComputerTurn_scan_returns [OF subset_refl] obtain r
    where "ComputerTurn_scan (g_board g) lx (g_wordsSeen g) (cells (g_board g)) (g_display g) = Inr r"
    by blast
  then obtain g' where "ComputerTurn lx g = Inr g'"
    by (cases r) (simp add: ComputerTurn_def)
  moreover from assms have "ComputerTurn_unpruned lx g = ComputerTurn lx g"
    by (simp add: ComputerTurn_unpruned_eq ComputerTurn_def ComputerTurn_scan_withoutPruning)
  ultimately show ?thesis by simp
qed

lemma coherent_lexiconOf: "coherent (lexiconOf ws)"
proof -
  have "\<exists>w \<in> set ws. take (length p) w = p" if "p @ s \<in> set ws" for p s
    using that by (rule rev_bexI) simp
  then show ?thesis
    by (simp add: coherent_def lexiconOf_def list_ex_iff)
qed

theorem pruning_equivalence_witness:
  "coherent (lexiconOf [''CATS'', ''CAST'', ''TACT''])
   \<and> (\<exists>g'. ComputerTurn (lexiconOf [''CATS'', ''CAST'', ''TACT''])
              \<lparr>g_board = smallBoard, g_wordsSeen = {''CAST''}, g_display = []\<rparr> = Inr g'
          \<and> ComputerTurn_unpruned (lexiconOf [''CATS'', ''CAST'', ''TACT''])
              \<lparr>g_board = smallBoard, g_wordsSeen = {''CAST''}, g_display = []\<rparr> = Inr g'
          \<and> recordedFor Computer (g_display g') = [''CATS''])"
proof -
  let ?lx = "lexiconOf [''CATS'', ''CAST'', ''TACT'']"
  let ?g = "\<lparr>g_board = smallBoard, g_wordsSeen = {''CAST''}, g_display = []\<rparr>"
  have coh: "coherent ?lx" by (rule coherent_lexiconOf)
  from pruning_equivalence [OF coh, of ?g] obtain g'
    where run: "ComputerTurn ?lx ?g = Inr g'" and "ComputerTurn_unpruned ?lx ?g = Inr g'"
    by blast
  moreover have "(case ComputerTurn ?lx ?g of Inl e \<Rightarrow> [] | Inr g' \<Rightarrow> recordedFor Computer (g_display g')) = [''CATS'']"
    by code_simp
  with run have "recordedFor Computer (g_display g') = [''CATS'']" by simp
  ultimately show ?thesis using coh by blast
qed

section \<open>Enumeration and tracing\<close>

lemma singleUpperTokens_iff:
  "singleUpperTokens board \<longleftrightarrow>
     (\<forall>i j. inBounds board i j \<longrightarrow>
        length (elems board i j) = 1 \<and> ConvertToUpperCase (elems board i j) = elems board i j)"
  by (auto simp: singleUpperTokens_def list_all_iff set_cells)

lemma singleUpperTokens_nonEmpty: "singleUpperTokens board \<Longrightarrow> tokensNonEmpty board"
  by (auto simp: singleUpperTokens_def tokensNonEmpty_def list_all_iff)

lemma single_token:
  assumes "singleUpperTokens board" and "inBounds board i j"
  obtains c where "elems board i j = [c]" and "toupper c = c"
proof -
  from assms have len: "length (elems board i j) = 1"
    and up: "ConvertToUpperCase (elems board i j) = elems board i j"
    by (simp_all add: singleUpperTokens_iff)
  from len obtain c where c: "elems board i j = [c]"
    by (cases "elems board i j") auto
  with up have "toupper c = c" by (simp add: ConvertToUpperCase_def)
  with c that show thesis by blast
qed

lemma traceFrom_upper:
  assumes "singleUpperTokens board"
  shows "traceFrom board row col locations ext s \<Longrightarrow> ConvertToUpperCase s = s"
proof (induction ext arbitrary: row col locations s)
  case Nil
  then show ?case by (simp add: traceFrom_Nil)
next
  case (Cons l ext)
  from Cons.prems obtain c s' where s: "s = c # s'"
    and cell: "elems board (numRow l) (numCol l) = [c]" "inBounds board (numRow l) (numCol l)"
    and deeper: "traceFrom board (numRow l) (numCol l) (locations @ [l]) ext s'"
    by (auto simp: traceFrom_Cons)
  from single_token [OF assms cell(2)] cell(1) have "toupper c = c" by auto
  with Cons.IH [OF deeper] s show ?case by (simp add: ConvertToUpperCase_def)
qed

lemma explores_trace:
  assumes single: "singleUpperTokens board"
  shows "explores board lx row col soFar0 visited0 w
    \<Longrightarrow> \<exists>q c s. elems board row col = [c] \<and> w = soFar0 @ c # s
          \<and> traceFrom board row col (visited0 @ [\<lparr>numRow = row, numCol = col\<rparr>]) q s"
proof (induction rule: explores.induct)
  case (here row col soFar0 visited0)
  from single_token [OF single here(1)] obtain c where "elems board row col = [c]" by blast
  moreover have "traceFrom board row col (visited0 @ [\<lparr>numRow = row, numCol = col\<rparr>]) [] []"
    by (simp add: traceFrom_Nil)
  ultimately show ?case by auto
next
  case (step row col soFar0 i j visited0 w)
  let ?here = "\<lparr>numRow = row, numCol = col\<rparr>"
  let ?l = "\<lparr>numRow = i, numCol = j\<rparr>"
  from single_token [OF single step(1)] obtain c where c: "elems board row col = [c]" by blast
  from step(3) have inb: "inBounds board i j" by (simp add: set_cells)
  from step.IH obtain q c' s' where c': "elems board i j = [c']"
    and w: "w = (soFar0 @ elems board row col) @ c' # s'"
    and tr: "traceFrom board i j ((visited0 @ [?here]) @ [?l]) q s'"
    by blast
  from step(4) have "AreNeighbors i j row col"
    by (simp add: AreNeighbors_sym [OF inb step(1)])
  with tr c' inb step(5) have "traceFrom board row col (visited0 @ [?here]) (?l # q) (c' # s')"
    by (simp add: traceFrom_Cons NotDuplicated_iff)
  with c w show ?case by auto
qed

lemma trace_explores:
  "traceFrom board row col (visited0 @ [\<lparr>numRow = row, numCol = col\<rparr>]) q s
     \<Longrightarrow> inBounds board row col \<Longrightarrow> elems board row col = [c]
     \<Longrightarrow> \<forall>p t. soFar0 @ c # s = p @ t \<longrightarrow> containsPrefix lx p
     \<Longrightarrow> explores board lx row col soFar0 visited0 (soFar0 @ c # s)"
proof (induction q arbitrary: row col visited0 soFar0 c s)
  case Nil
  then have "s = []" by (simp add: traceFrom_Nil)
  moreover from Nil.prems(4) have "containsPrefix lx (soFar0 @ elems board row col)"
    using Nil.prems(3) \<open>s = []\<close> by simp
  ultimately show ?case
    using explores.here [OF Nil.prems(2), of lx soFar0 visited0] Nil.prems(3) by simp
next
  case (Cons l q)
  let ?here = "\<lparr>numRow = row, numCol = col\<rparr>"
  from Cons.prems(1) obtain c' s' where s: "s = c' # s'"
    and cell: "elems board (numRow l) (numCol l) = [c']" "inBounds board (numRow l) (numCol l)"
    and nb: "AreNeighbors (numRow l) (numCol l) row col"
    and unused: "l \<notin> set (visited0 @ [?here])"
    and deeper: "traceFrom board (numRow l) (numCol l) ((visited0 @ [?here]) @ [l]) q s'"
    by (auto simp: traceFrom_Cons)
  from deeper have deeper': "traceFrom board (numRow l) (numCol l)
      ((visited0 @ [?here]) @ [\<lparr>numRow = numRow l, numCol = numCol l\<rparr>]) q s'"
    by (simp only: locationT_eq)
  from Cons.prems(4) s have pre: "\<forall>p t. (soFar0 @ [c]) @ c' # s' = p @ t \<longrightarrow> containsPrefix lx p"
    by simp
  from Cons.IH [OF deeper' cell(2) cell(1) pre]
  have rec: "explores board lx (numRow l) (numCol l) (soFar0 @ elems board row col) (visited0 @ [?here])
      (soFar0 @ c # s)"
    using Cons.prems(3) s by simp
  from Cons.prems(4) s have here: "containsPrefix lx (soFar0 @ elems board row col)"
    using Cons.prems(3) by (metis append.assoc append_Cons append_Nil)
  from cell(2) have mem: "(numRow l, numCol l) \<in> set (cells board)"
    by (simp add: set_cells)
  from nb have fwd: "AreNeighbors row col (numRow l) (numCol l)"
    by (simp add: AreNeighbors_sym [OF Cons.prems(2) cell(2)])
  from unused have nd: "NotDuplicated (numRow l) (numCol l) (visited0 @ [?here])"
    by (simp only: NotDuplicated_iff locationT_eq) simp
  from explores.step [OF Cons.prems(2) here mem fwd nd rec] show ?case .
qed

lemma prefixes_contained:
  assumes "coherent lx" and "containsWord lx w"
  shows "\<forall>p t. w = p @ t \<longrightarrow> containsPrefix lx p"
  using assms unfolding coherent_def by blast

lemma enumerated_iff:
  assumes single: "singleUpperTokens board" and coh: "coherent lx"
  shows "w \<in> enumerated board lx (cells board) \<longleftrightarrow>
     ConvertToUpperCase w = w
     \<and> (\<exists>results. Findable board w (-1) (-1) [] [] = Inr results \<and> results \<noteq> [])
     \<and> containsWord lx w \<and> 4 \<le> length w"
    (is "?L \<longleftrightarrow> ?R")
proof
  assume ?L
  then obtain i j where cell: "inBounds board i j"
    and ex: "explores board lx i j [] [] w" and word: "containsWord lx w" "length w > 3"
    by (auto simp: enumerated_def found_def set_cells)
  let ?l = "\<lparr>numRow = i, numCol = j\<rparr>"
  from explores_trace [OF single ex] obtain q c s where c: "elems board i j = [c]"
    and w: "w = c # s" and tr: "traceFrom board i j [?l] q s"
    by auto
  from tr c cell w have whole: "traceFrom board (-1) (-1) [] (?l # q) w"
    by (simp add: traceFrom_Cons AreNeighbors_sentinel)
  from traceFrom_upper [OF single whole] have up: "ConvertToUpperCase w = w" .
  from Findable_returns(1) [OF singleUpperTokens_nonEmpty [OF single]] obtain results
    where run: "Findable board w (-1) (-1) [] [] = Inr results"
    by blast
  from whole up have "traceFrom board (-1) (-1) [] (?l # q) (ConvertToUpperCase w)" by simp
  from Findable_complete(1) [OF this run] have "results \<noteq> []" by auto
  with up run word show ?R by auto
next
  assume ?R
  then obtain results where up: "ConvertToUpperCase w = w"
    and run: "Findable board w (-1) (-1) [] [] = Inr results" and some: "results \<noteq> []"
    and word: "containsWord lx w" and len: "4 \<le> length w"
    by blast
  from some obtain p where "p \<in> set (drop (length ([] :: locationT list list)) results)"
    by (cases results) auto
  from extends_new(2) [OF Findable_extends(1) [OF run] this] up
  have "traceFrom board (-1) (-1) [] (drop 0 p) w" by simp
  then have tr: "traceFrom board (-1) (-1) [] p w" by simp
  with len obtain l q where p: "p = l # q"
    by (cases p) (auto simp: traceFrom_Nil)
  from tr obtain c s where w: "w = c # s"
    and cell: "elems board (numRow l) (numCol l) = [c]" "inBounds board (numRow l) (numCol l)"
    and deeper: "traceFrom board (numRow l) (numCol l) ([] @ [l]) q s"
    unfolding p by (auto simp: traceFrom_Cons)
  from deeper have deeper': "traceFrom board (numRow l) (numCol l)
      ([] @ [\<lparr>numRow = numRow l, numCol = numCol l\<rparr>]) q s"
    by (simp only: locationT_eq)
  from prefixes_contained [OF coh word] w
  have "\<forall>p t. [] @ c # s = p @ t \<longrightarrow> containsPrefix lx p" by simp
  from trace_explores [OF deeper' cell(2) cell(1) this]
  have "explores board lx (numRow l) (numCol l) [] [] w" using w by simp
  with word len have "w \<in> found board lx (numRow l) (numCol l) [] []"
    by (simp add: found_def)
  moreover from cell(2) have "(numRow l, numCol l) \<in> set (cells board)"
    by (simp add: set_cells)
  ultimately show ?L
    unfolding enumerated_def by blast
qed

lemma recordedFor_records [simp]:
  "recordedFor Computer (map (\<lambda>w. RecordWordForPlayer w Computer) new) = new"
  by (induction new) (simp_all add: recordedFor_def)

lemma ComputerTurn_result:
  "\<exists>g' new. ComputerTurn lx g = Inr g'
     \<and> g_wordsSeen g' = g_wordsSeen g \<union> enumerated (g_board g) lx (cells (g_board g))
     \<and> g_display g' = g_display g @ map (\<lambda>w. RecordWordForPlayer w Computer) new
     \<and> set new = enumerated (g_board g) lx (cells (g_board g)) - g_wordsSeen g"
proof -
  from ComputerTurn_scan_returns [OF subset_refl] obtain r
    where r: "ComputerTurn_scan (g_board g) lx (g_wordsSeen g) (cells (g_board g)) (g_display g) = Inr r"
    by blast
  from ComputerTurn_scan_grows [OF r] obtain new
    where "fst r = g_wordsSeen g \<union> enumerated (g_board g) lx (cells (g_board g))"
      and "snd r = g_display g @ map (\<lambda>w. RecordWordForPlayer w Computer) new"
      and "set new = enumerated (g_board g) lx (cells (g_board g)) - g_wordsSeen g"
    unfolding grows_def by blast
  with r show ?thesis
    by (cases r) (auto simp: ComputerTurn_def)
qed

text \<open>
  C2, as the specification words it, fails on a board with a two-letter face: with
  \<open>QUIT\<close> in the lexicon the computer records \<open>QUIT\<close>, spelled by the cells \<open>QU\<close>, \<open>I\<close>, \<open>T\<close>,
  while \<open>Findable\<close> returns no path for it.
\<close>

theorem enumeration_tracing_counterexample:
  "(case ComputerTurn (lexiconOf [''QUIT'']) \<lparr>g_board = quBoard, g_wordsSeen = {}, g_display = []\<rparr> of
      Inl e \<Rightarrow> [] | Inr g' \<Rightarrow> recordedFor Computer (g_display g')) = [''QUIT'']
   \<and> Findable quBoard ''QUIT'' (-1) (-1) [] [] = Inr []
   \<and> containsWord (lexiconOf [''QUIT'']) ''QUIT'' \<and> 4 \<le> length ''QUIT''"
  by code_simp

text \<open>
  C2, amended: on a board whose cells each bear one character that \<open>toupper\<close> leaves alone,
  and with a coherent lexicon, the computer's turn returns, and the words it records for
  the computer during the turn are exactly the upper-case words for which \<open>Findable\<close>,
  seeded with the sentinel, returns at least one path, which the lexicon contains, which
  have at least four characters, and which were not claimed when the turn began.
\<close>

theorem enumeration_agrees_with_tracing:
  assumes "singleUpperTokens (g_board g)" and "coherent lx"
  shows "\<exists>g'. ComputerTurn lx g = Inr g'
    \<and> set (recordedFor Computer (drop (length (g_display g)) (g_display g')))
        = {w. ConvertToUpperCase w = w
              \<and> (\<exists>results. Findable (g_board g) w (-1) (-1) [] [] = Inr results \<and> results \<noteq> [])
              \<and> containsWord lx w \<and> 4 \<le> length w \<and> w \<notin> g_wordsSeen g}"
proof -
  from ComputerTurn_result [of lx g] obtain g' new where run: "ComputerTurn lx g = Inr g'"
    and disp: "g_display g' = g_display g @ map (\<lambda>w. RecordWordForPlayer w Computer) new"
    and new: "set new = enumerated (g_board g) lx (cells (g_board g)) - g_wordsSeen g"
    by blast
  from disp have "recordedFor Computer (drop (length (g_display g)) (g_display g')) = new"
    by simp
  moreover from new enumerated_iff [OF assms]
  have "set new = {w. ConvertToUpperCase w = w
              \<and> (\<exists>results. Findable (g_board g) w (-1) (-1) [] [] = Inr results \<and> results \<noteq> [])
              \<and> containsWord lx w \<and> 4 \<le> length w \<and> w \<notin> g_wordsSeen g}"
    by blast
  ultimately show ?thesis using run by simp
qed

theorem enumeration_agrees_with_tracing_witness:
  "singleUpperTokens smallBoard \<and> coherent (lexiconOf [''CATS'', ''CAST'', ''TACT''])
   \<and> (\<exists>g'. ComputerTurn (lexiconOf [''CATS'', ''CAST'', ''TACT''])
              \<lparr>g_board = smallBoard, g_wordsSeen = {''CAST''}, g_display = []\<rparr> = Inr g'
          \<and> ''CATS'' \<in> set (recordedFor Computer (g_display g'))
          \<and> ''CAST'' \<notin> set (recordedFor Computer (g_display g'))
          \<and> ''TACT'' \<notin> set (recordedFor Computer (g_display g')))
   \<and> Findable smallBoard ''CATS'' (-1) (-1) [] []
       = Inr [[\<lparr>numRow = 0, numCol = 0\<rparr>, \<lparr>numRow = 0, numCol = 1\<rparr>, \<lparr>numRow = 1, numCol = 1\<rparr>, \<lparr>numRow = 1, numCol = 0\<rparr>]]
   \<and> Findable smallBoard ''TACT'' (-1) (-1) [] [] = Inr []"
proof -
  let ?lx = "lexiconOf [''CATS'', ''CAST'', ''TACT'']"
  let ?g = "\<lparr>g_board = smallBoard, g_wordsSeen = {''CAST''}, g_display = []\<rparr>"
  have single: "singleUpperTokens smallBoard" by code_simp
  have coh: "coherent ?lx" by (rule coherent_lexiconOf)
  have cats: "Findable smallBoard ''CATS'' (-1) (-1) [] []
       = Inr [[\<lparr>numRow = 0, numCol = 0\<rparr>, \<lparr>numRow = 0, numCol = 1\<rparr>, \<lparr>numRow = 1, numCol = 1\<rparr>, \<lparr>numRow = 1, numCol = 0\<rparr>]]"
    by code_simp
  have tact: "Findable smallBoard ''TACT'' (-1) (-1) [] [] = Inr []"
    by code_simp
  have up: "ConvertToUpperCase ''CATS'' = ''CATS''"
    by code_simp
  have words: "containsWord ?lx ''CATS''"
    by (simp add: lexiconOf_def)
  from single have "singleUpperTokens (g_board ?g)" by simp
  from enumeration_agrees_with_tracing [OF this coh] obtain g'
    where run: "ComputerTurn ?lx ?g = Inr g'"
      and eq: "set (recordedFor Computer (drop (length (g_display ?g)) (g_display g')))
        = {w. ConvertToUpperCase w = w
              \<and> (\<exists>results. Findable (g_board ?g) w (-1) (-1) [] [] = Inr results \<and> results \<noteq> [])
              \<and> containsWord ?lx w \<and> 4 \<le> length w \<and> w \<notin> g_wordsSeen ?g}"
    by blast
  from eq have eq': "set (recordedFor Computer (g_display g'))
        = {w. ConvertToUpperCase w = w
              \<and> (\<exists>results. Findable smallBoard w (-1) (-1) [] [] = Inr results \<and> results \<noteq> [])
              \<and> containsWord ?lx w \<and> 4 \<le> length w \<and> w \<notin> {''CAST''}}"
    by simp
  from cats up words have "''CATS'' \<in> set (recordedFor Computer (g_display g'))"
    unfolding eq' by simp
  moreover have "''CAST'' \<notin> set (recordedFor Computer (g_display g'))"
    unfolding eq' by simp
  moreover from tact have "''TACT'' \<notin> set (recordedFor Computer (g_display g'))"
    unfolding eq' by simp
  ultimately show ?thesis using single coh run cats tact by blast
qed

section \<open>Totality and the seed of the search\<close>

lemma unvisited_bound: "card (unvisited board visited) \<le> length (cells board)"
proof -
  have "card (unvisited board visited) \<le> card ((\<lambda>(i, j). \<lparr>numRow = i, numCol = j\<rparr>) ` set (cells board))"
    unfolding unvisited_def by (intro card_mono) auto
  also have "\<dots> \<le> card (set (cells board))"
    by (intro card_image_le) simp
  also have "\<dots> \<le> length (cells board)"
    by (rule card_length)
  finally show ?thesis .
qed

text \<open>
  C8. \<open>Findable\<close> and \<open>FindAllWords\<close> are total: each recursive call of \<open>Findable\<close> gets a
  shorter word, each recursive call of \<open>FindAllWords\<close> leaves fewer unvisited cells, of
  which there are at most as many as the board has cells. On a board whose cells all bear
  a token, \<open>Findable\<close> returns a result for every word; started inside the board,
  \<open>FindAllWords\<close> returns a result for every lexicon. For a word with a character that no
  cell bears, \<open>Findable\<close> adds no path, the seeded search returns the empty result, and
  \<open>WordIsValid\<close> returns false, whatever the lexicon says.
\<close>

theorem searches_total:
  "(word \<noteq> [] \<longrightarrow> length (drop 1 (ConvertToUpperCase word)) < length word)
   \<and> (inBounds board i j \<and> NotDuplicated i j visited \<longrightarrow>
        card (unvisited board (visited @ [\<lparr>numRow = i, numCol = j\<rparr>])) < card (unvisited board visited))
   \<and> card (unvisited board visited) \<le> length (cells board)
   \<and> (tokensNonEmpty board \<longrightarrow> (\<exists>answers'. Findable board word row col locations answers = Inr answers'))
   \<and> (inBounds board row col \<longrightarrow>
        (\<exists>r. FindAllWords row col board lx wordsSeen soFar visited disp = Inr r))
   \<and> ((\<exists>c \<in> set (ConvertToUpperCase word). absentFromBoard board c) \<longrightarrow>
        Findable board word row col locations answers = Inr answers
        \<and> Findable board word (-1) (-1) [] [] = Inr []
        \<and> WordIsValid word lx \<lparr>g_board = board, g_wordsSeen = wordsSeen, g_display = disp\<rparr>
            = Inr (False, \<lparr>g_board = board, g_wordsSeen = wordsSeen, g_display = disp\<rparr>))"
proof -
  have shorter: "word \<noteq> [] \<longrightarrow> length (drop 1 (ConvertToUpperCase word)) < length word"
    by (cases word) simp_all
  have fewer: "inBounds board i j \<and> NotDuplicated i j visited \<longrightarrow>
        card (unvisited board (visited @ [\<lparr>numRow = i, numCol = j\<rparr>])) < card (unvisited board visited)"
    by (simp add: unvisited_less)
  have tracer: "tokensNonEmpty board \<longrightarrow> (\<exists>answers'. Findable board word row col locations answers = Inr answers')"
    using Findable_returns(1) by blast
  have enumerator: "inBounds board row col \<longrightarrow>
        (\<exists>r. FindAllWords row col board lx wordsSeen soFar visited disp = Inr r)"
    using FindAllWords_returns(1) by blast
  have absent: "Findable board word row col locations answers = Inr answers
        \<and> Findable board word (-1) (-1) [] [] = Inr []
        \<and> WordIsValid word lx \<lparr>g_board = board, g_wordsSeen = wordsSeen, g_display = disp\<rparr>
            = Inr (False, \<lparr>g_board = board, g_wordsSeen = wordsSeen, g_display = disp\<rparr>)"
    if "\<exists>c \<in> set (ConvertToUpperCase word). absentFromBoard board c"
  proof -
    from that have none: "Findable board word (-1) (-1) [] [] = Inr []"
      by (rule Findable_absent(1))
    then have "WordIsValid word lx \<lparr>g_board = board, g_wordsSeen = wordsSeen, g_display = disp\<rparr>
            = Inr (False, \<lparr>g_board = board, g_wordsSeen = wordsSeen, g_display = disp\<rparr>)"
      by (simp add: WordIsValid_cases del: Findable.simps)
    with none Findable_absent(1) [OF that] show ?thesis by simp
  qed
  from shorter fewer unvisited_bound tracer enumerator absent show ?thesis by blast
qed

theorem searches_total_witness:
  "''zest'' \<noteq> [] \<and> length (drop 1 (ConvertToUpperCase ''zest'')) < length ''zest''
   \<and> inBounds scenarioBoard 0 0 \<and> NotDuplicated 0 0 []
   \<and> card (unvisited scenarioBoard [\<lparr>numRow = 0, numCol = 0\<rparr>]) < card (unvisited scenarioBoard [])
   \<and> tokensNonEmpty scenarioBoard
   \<and> absentFromBoard scenarioBoard CHR ''Z'' \<and> CHR ''Z'' \<in> set (ConvertToUpperCase ''zest'')
   \<and> (\<exists>answers'. Findable scenarioBoard ''zest'' (-1) (-1) [] [] = Inr answers')
   \<and> (\<exists>r. FindAllWords 0 0 scenarioBoard (lexiconOf [''ZEST'']) {} [] [] [] = Inr r)
   \<and> Findable scenarioBoard ''zest'' (-1) (-1) [] [] = Inr []
   \<and> WordIsValid ''zest'' (lexiconOf [''zest'']) \<lparr>g_board = scenarioBoard, g_wordsSeen = {}, g_display = []\<rparr>
        = Inr (False, \<lparr>g_board = scenarioBoard, g_wordsSeen = {}, g_display = []\<rparr>)"
proof -
  have tok: "tokensNonEmpty scenarioBoard" by code_simp
  have inb: "inBounds scenarioBoard 0 0" by code_simp
  have fresh: "NotDuplicated 0 0 []" by simp
  have word: "''zest'' \<noteq> []" by simp
  have abs: "absentFromBoard scenarioBoard CHR ''Z''" by code_simp
  have z: "CHR ''Z'' \<in> set (ConvertToUpperCase ''zest'')" by code_simp
  from abs z have ex: "\<exists>c \<in> set (ConvertToUpperCase ''zest''). absentFromBoard scenarioBoard c"
    by blast
  from searches_total [of "''zest''" scenarioBoard 0 0 "[]" "-1" "-1" "[]" "[]" "lexiconOf [''zest'']" "{}" "[]" "[]"]
    tok ex word inb fresh
  have a: "\<exists>answers'. Findable scenarioBoard ''zest'' (-1) (-1) [] [] = Inr answers'"
    and b: "Findable scenarioBoard ''zest'' (-1) (-1) [] [] = Inr []"
    and c: "WordIsValid ''zest'' (lexiconOf [''zest'']) \<lparr>g_board = scenarioBoard, g_wordsSeen = {}, g_display = []\<rparr>
        = Inr (False, \<lparr>g_board = scenarioBoard, g_wordsSeen = {}, g_display = []\<rparr>)"
    and e: "length (drop 1 (ConvertToUpperCase ''zest'')) < length ''zest''"
    and f: "card (unvisited scenarioBoard ([] @ [\<lparr>numRow = 0, numCol = 0\<rparr>])) < card (unvisited scenarioBoard [])"
    by blast+
  from searches_total [of "''zest''" scenarioBoard 0 0 "[]" 0 0 "[]" "[]" "lexiconOf [''ZEST'']" "{}" "[]" "[]"] inb
  have d: "\<exists>r. FindAllWords 0 0 scenarioBoard (lexiconOf [''ZEST'']) {} [] [] [] = Inr r"
    by blast
  from f have f': "card (unvisited scenarioBoard [\<lparr>numRow = 0, numCol = 0\<rparr>]) < card (unvisited scenarioBoard [])"
    by simp
  from tok inb fresh word abs z a b c d e f' show ?thesis by blast
qed

text \<open>
  C10, as the specification words it, has both searches hand the predecessor to
  \<open>AreNeighbors\<close> as the second pair. The loop of \<open>Findable\<close> does: with the sentinel as
  predecessor it accepts the cell \<open>(1, 1)\<close>. The loop of \<open>FindAllWords\<close> hands its current
  cell, the predecessor of the candidate, as the first pair: with the sentinel there it
  passes over the cell \<open>(1, 1)\<close>, from which the enumeration would record \<open>RATS\<close>; and
  \<open>FindAllWords\<close> itself, given the sentinel, reads the board outside its range.
\<close>

theorem predecessor_second_counterexample:
  "AreNeighbors 1 1 (-1) (-1) \<and> \<not> AreNeighbors (-1) (-1) 1 1
   \<and> Findable_scan scenarioBoard ''R'' (-1) (-1) [(1, 1)] [] [] = Inr [[\<lparr>numRow = 1, numCol = 1\<rparr>]]
   \<and> FindAllWords_scan (-1) (-1) scenarioBoard (lexiconOf [''RATS'']) {} [] [] [(1, 1)] [] = Inr ({}, [])
   \<and> FindAllWords 1 1 scenarioBoard (lexiconOf [''RATS'']) {} [] [] []
       = Inr ({''RATS''}, [RecordWordForPlayer ''RATS'' Computer])
   \<and> FindAllWords (-1) (-1) scenarioBoard (lexiconOf [''RATS'']) {} [] [] [] = Inl GridOutOfRange"
  by code_simp

text \<open>
  C10, amended. \<open>AreNeighbors\<close> accepts every first pair when the second pair is the
  sentinel \<open>(-1, -1)\<close>, and tests for the sentinel there only. \<open>Findable\<close> hands the
  predecessor as that second pair and \<open>WordIsValid\<close> seeds it with the sentinel, so the
  traced search starts at every cell: whatever cell of the board bears the first character
  of the word, and however the rest of the word is traced from there, that path is among
  the answers, and \<open>WordIsValid\<close> accepts the word exactly when it is long enough,
  unclaimed and in the lexicon. \<open>FindAllWords\<close> hands its current cell as the first pair
  and is never given the sentinel (it would read outside the board, and its loop would
  pass over every cell but \<open>(0, 0)\<close>): \<open>ComputerTurn\<close> starts it at every cell, so that the
  upper-cased word, if a coherent lexicon contains it and it is long enough, is claimed
  after the computer's turn, and recorded for the computer unless claimed before.
\<close>

theorem seeds_reach_every_cell:
  assumes "tokensNonEmpty board" and "inBounds board i j" and "elems board i j = [c]"
    and "ConvertToUpperCase word = c # s"
    and "traceFrom board i j [\<lparr>numRow = i, numCol = j\<rparr>] ext s"
  shows "AreNeighbors row1 col1 (-1) (-1)
    \<and> (inBounds board row2 col2 \<and> (row2, col2) \<noteq> (0, 0) \<longrightarrow>
          \<not> AreNeighbors (-1) (-1) row2 col2
          \<and> FindAllWords_scan (-1) (-1) board lx wordsSeen soFar visited [(row2, col2)] disp
              = Inr (wordsSeen, disp))
    \<and> FindAllWords (-1) (-1) board lx wordsSeen soFar visited disp = Inl GridOutOfRange
    \<and> (\<exists>answers. Findable board word (-1) (-1) [] [] = Inr answers
          \<and> \<lparr>numRow = i, numCol = j\<rparr> # ext \<in> set answers)
    \<and> ((\<exists>g'. WordIsValid word lx \<lparr>g_board = board, g_wordsSeen = wordsSeen, g_display = disp\<rparr>
                  = Inr (True, g'))
          \<longleftrightarrow> 4 \<le> length word \<and> word \<notin> wordsSeen \<and> containsWord lx word)
    \<and> (coherent lx \<and> containsWord lx (c # s) \<and> 4 \<le> length (c # s) \<longrightarrow>
          (\<exists>g'. ComputerTurn lx \<lparr>g_board = board, g_wordsSeen = wordsSeen, g_display = disp\<rparr> = Inr g'
              \<and> c # s \<in> g_wordsSeen g'
              \<and> (c # s \<notin> wordsSeen \<longrightarrow>
                    c # s \<in> set (recordedFor Computer (drop (length disp) (g_display g'))))))"
proof -
  let ?l = "\<lparr>numRow = i, numCol = j\<rparr>"
  let ?g = "\<lparr>g_board = board, g_wordsSeen = wordsSeen, g_display = disp\<rparr>"
  from assms(2,3,5) have "traceFrom board (-1) (-1) [] (?l # ext) (c # s)"
    by (simp add: traceFrom_Cons AreNeighbors_sentinel)
  with assms(4) have whole: "traceFrom board (-1) (-1) [] (?l # ext) (ConvertToUpperCase word)"
    by simp
  from Findable_returns(1) [OF assms(1)] obtain answers
    where run: "Findable board word (-1) (-1) [] [] = Inr answers"
    by blast
  from Findable_complete(1) [OF whole run] have mem: "?l # ext \<in> set answers" by simp
  then have some: "answers \<noteq> []" by auto
  have gate: "(\<exists>g'. WordIsValid word lx ?g = Inr (True, g'))
          \<longleftrightarrow> 4 \<le> length word \<and> word \<notin> wordsSeen \<and> containsWord lx word"
  proof (cases "length word < 4 \<or> word \<in> g_wordsSeen ?g \<or> \<not> containsWord lx word")
    case True
    then have "WordIsValid word lx ?g = Inr (False, ?g)"
      by (simp only: WordIsValid_cases if_True)
    with True show ?thesis by auto
  next
    case False
    with run some have "\<exists>g'. WordIsValid word lx ?g = Inr (True, g')"
      by (simp add: WordIsValid_cases del: Findable.simps)
    with False show ?thesis by auto
  qed
  have only: "\<not> AreNeighbors (-1) (-1) row2 col2
          \<and> FindAllWords_scan (-1) (-1) board lx wordsSeen soFar visited [(row2, col2)] disp
              = Inr (wordsSeen, disp)"
    if "inBounds board row2 col2 \<and> (row2, col2) \<noteq> (0, 0)"
  proof -
    from that have no: "\<not> AreNeighbors (-1) (-1) row2 col2"
      by (auto simp: inBounds_def AreNeighbors.simps)
    then have "\<not> (AreNeighbors (-1) (-1) row2 col2 \<and> NotDuplicated row2 col2 visited)"
      by simp
    from FindAllWords_scan_skip [OF this] no show ?thesis
      by (simp add: FindAllWords_scan_Nil)
  qed
  have outside: "FindAllWords (-1) (-1) board lx wordsSeen soFar visited disp = Inl GridOutOfRange"
    by (rule FindAllWords_outside) (simp add: inBounds_def)
  have turn: "\<exists>g'. ComputerTurn lx ?g = Inr g'
              \<and> c # s \<in> g_wordsSeen g'
              \<and> (c # s \<notin> wordsSeen \<longrightarrow>
                    c # s \<in> set (recordedFor Computer (drop (length disp) (g_display g'))))"
    if "coherent lx \<and> containsWord lx (c # s) \<and> 4 \<le> length (c # s)"
  proof -
    from that have coh: "coherent lx" and word: "containsWord lx (c # s)" and len: "4 \<le> length (c # s)"
      by simp_all
    from prefixes_contained [OF coh word]
    have pre: "\<forall>p t. [] @ c # s = p @ t \<longrightarrow> containsPrefix lx p" by simp
    from assms(5) have "traceFrom board i j ([] @ [?l]) ext s" by simp
    from trace_explores [OF this assms(2) assms(3) pre]
    have "explores board lx i j [] [] (c # s)" by simp
    with word len have "c # s \<in> found board lx i j [] []"
      by (simp add: found_def)
    moreover from assms(2) have "(i, j) \<in> set (cells board)"
      by (simp add: set_cells)
    ultimately have enum: "c # s \<in> enumerated board lx (cells board)"
      unfolding enumerated_def by blast
    from ComputerTurn_result [of lx ?g] obtain g' new where g': "ComputerTurn lx ?g = Inr g'"
      and seen: "g_wordsSeen g' = wordsSeen \<union> enumerated board lx (cells board)"
      and shown: "g_display g' = disp @ map (\<lambda>w. RecordWordForPlayer w Computer) new"
      and new: "set new = enumerated board lx (cells board) - wordsSeen"
      by auto
    from shown have "recordedFor Computer (drop (length disp) (g_display g')) = new"
      by simp
    with g' seen new enum show ?thesis by auto
  qed
  from run mem gate only outside turn show ?thesis
    by (simp add: AreNeighbors_sentinel)
qed

theorem seeds_reach_every_cell_witness:
  "tokensNonEmpty scenarioBoard \<and> inBounds scenarioBoard 1 3 \<and> elems scenarioBoard 1 3 = ''N''
   \<and> ConvertToUpperCase ''NETS'' = ''NETS''
   \<and> traceFrom scenarioBoard 1 3 [\<lparr>numRow = 1, numCol = 3\<rparr>]
        [\<lparr>numRow = 1, numCol = 2\<rparr>, \<lparr>numRow = 0, numCol = 2\<rparr>, \<lparr>numRow = 0, numCol = 3\<rparr>] ''ETS''
   \<and> AreNeighbors 1 3 (-1) (-1) \<and> \<not> AreNeighbors (-1) (-1) 1 3
   \<and> FindAllWords_scan (-1) (-1) scenarioBoard (lexiconOf [''NETS'']) {} [] [] [(1, 3)] [] = Inr ({}, [])
   \<and> (\<exists>answers. Findable scenarioBoard ''NETS'' (-1) (-1) [] [] = Inr answers
        \<and> [\<lparr>numRow = 1, numCol = 3\<rparr>, \<lparr>numRow = 1, numCol = 2\<rparr>, \<lparr>numRow = 0, numCol = 2\<rparr>, \<lparr>numRow = 0, numCol = 3\<rparr>]
            \<in> set answers)
   \<and> 4 \<le> length ''NETS'' \<and> coherent (lexiconOf [''NETS'']) \<and> containsWord (lexiconOf [''NETS'']) ''NETS''
   \<and> (\<exists>g'. WordIsValid ''NETS'' (lexiconOf [''NETS''])
          \<lparr>g_board = scenarioBoard, g_wordsSeen = {}, g_display = []\<rparr> = Inr (True, g'))
   \<and> (\<exists>g'. ComputerTurn (lexiconOf [''NETS''])
          \<lparr>g_board = scenarioBoard, g_wordsSeen = {}, g_display = []\<rparr> = Inr g'
        \<and> ''NETS'' \<in> g_wordsSeen g' \<and> ''NETS'' \<in> set (recordedFor Computer (g_display g')))"
proof -
  have tok: "tokensNonEmpty scenarioBoard" by code_simp
  have inb: "inBounds scenarioBoard 1 3" by code_simp
  have cell: "elems scenarioBoard 1 3 = ''N''" by code_simp
  have up: "ConvertToUpperCase ''NETS'' = CHR ''N'' # ''ETS''" by code_simp
  have tr: "traceFrom scenarioBoard 1 3 [\<lparr>numRow = 1, numCol = 3\<rparr>]
        [\<lparr>numRow = 1, numCol = 2\<rparr>, \<lparr>numRow = 0, numCol = 2\<rparr>, \<lparr>numRow = 0, numCol = 3\<rparr>] ''ETS''"
    by code_simp
  have word: "containsWord (lexiconOf [''NETS'']) ''NETS''"
    by (simp add: lexiconOf_def)
  have coh: "coherent (lexiconOf [''NETS''])" by (rule coherent_lexiconOf)
  from seeds_reach_every_cell [OF tok inb cell up tr, where ?row1.0 = 1 and ?col1.0 = 3
      and ?row2.0 = 1 and ?col2.0 = 3 and wordsSeen = "{}" and lx = "lexiconOf [''NETS'']" and disp = "[]"
      and soFar = "[]" and visited = "[]"]
    tok inb cell up tr word coh
  show ?thesis by simp
qed

section \<open>What the gate and the enumeration leave alone\<close>

lemma recordedFor_append: "recordedFor who (d @ e) = recordedFor who d @ recordedFor who e"
  by (simp add: recordedFor_def)

lemma recordedFor_highlights [simp]: "recordedFor who (map (\<lambda>l. HighlightCube (f l) (h l) b) p) = []"
  by (induction p) (simp_all add: recordedFor_def)

text \<open>
  C9. \<open>WordIsValid\<close> returns the round with the same claimed words and the same board,
  and credits no word, whether it accepts or rejects: it only writes highlights to the
  display. The word enters the claimed words in \<open>putWordOnBoard\<close>, which leaves the board
  alone; and \<open>ComputerTurn\<close> returns the round with the same board. (\<open>Findable\<close> and
  \<open>FindAllWords\<close> contain no assignment to a cell of the board: it enters them as a value.)
\<close>

theorem WordIsValid_frame:
  "(WordIsValid word lx g = Inr (accepted, g')
      \<longrightarrow> g_wordsSeen g' = g_wordsSeen g \<and> g_board g' = g_board g
          \<and> recordedFor who (g_display g') = recordedFor who (g_display g))
   \<and> g_wordsSeen (putWordOnBoard word g) = insert word (g_wordsSeen g)
   \<and> g_board (putWordOnBoard word g) = g_board g
   \<and> (ComputerTurn lx g = Inr g'' \<longrightarrow> g_board g'' = g_board g)"
proof -
  have "g_wordsSeen g' = g_wordsSeen g \<and> g_board g' = g_board g
          \<and> recordedFor who (g_display g') = recordedFor who (g_display g)"
    if "WordIsValid word lx g = Inr (accepted, g')"
    using that unfolding WordIsValid_cases
    by (auto simp: recordedFor_append recordedFor_def split: if_splits sum.splits)
  moreover have "g_board g'' = g_board g" if "ComputerTurn lx g = Inr g''"
    using that by (auto simp: ComputerTurn_def split: sum.splits)
  ultimately show ?thesis
    by (simp add: putWordOnBoard_def)
qed

theorem WordIsValid_frame_witness:
  "(\<exists>g'. WordIsValid ''CATS'' (lexiconOf [''CATS''])
            \<lparr>g_board = scenarioBoard, g_wordsSeen = {''CORE''}, g_display = []\<rparr> = Inr (True, g')
        \<and> g_wordsSeen g' = {''CORE''} \<and> g_board g' = scenarioBoard \<and> g_display g' \<noteq> [])
   \<and> (\<exists>g''. ComputerTurn (lexiconOf [''CATS''])
            \<lparr>g_board = scenarioBoard, g_wordsSeen = {''CORE''}, g_display = []\<rparr> = Inr g''
        \<and> g_board g'' = scenarioBoard)"
proof -
  let ?lx = "lexiconOf [''CATS'']"
  let ?g = "\<lparr>g_board = scenarioBoard, g_wordsSeen = {''CORE''}, g_display = []\<rparr>"
  have find: "Findable scenarioBoard ''CATS'' (-1) (-1) [] []
     = Inr [[\<lparr>numRow = 0, numCol = 0\<rparr>, \<lparr>numRow = 0, numCol = 1\<rparr>, \<lparr>numRow = 0, numCol = 2\<rparr>, \<lparr>numRow = 0, numCol = 3\<rparr>]]"
    by code_simp
  have "containsWord ?lx ''CATS''"
    by (simp add: lexiconOf_def)
  with find obtain g' where run: "WordIsValid ''CATS'' ?lx ?g = Inr (True, g')" and "g_display g' \<noteq> []"
    by (simp add: WordIsValid_cases del: Findable.simps)
  with WordIsValid_frame [of "''CATS''" ?lx ?g True g']
  have gate: "\<exists>g'. WordIsValid ''CATS'' ?lx ?g = Inr (True, g')
        \<and> g_wordsSeen g' = {''CORE''} \<and> g_board g' = scenarioBoard \<and> g_display g' \<noteq> []"
    by auto
  from ComputerTurn_result [of ?lx ?g] obtain g'' where turn: "ComputerTurn ?lx ?g = Inr g''"
    by blast
  with WordIsValid_frame [of "''CATS''" ?lx ?g True g' Human g'']
  have "g_board g'' = scenarioBoard" by simp
  with gate turn show ?thesis by blast
qed

end
